theory Spec2Isabelle
  imports Main
begin

section \<open>Shared values: return codes, time bases, rescaling\<close>

text \<open>
  The FFmpeg calls of the two classes report their outcome as a C \<open>int\<close>. The code
  compares it with \<open>AVERROR(EAGAIN)\<close> and \<open>AVERROR_EOF\<close> and tests its sign, so the
  model keeps it as an integer. The two macros come from the FFmpeg headers
  (\<open>AVERROR(e) = -e\<close> with \<open>EAGAIN = 11\<close>; \<open>AVERROR_EOF = -MKTAG('E','O','F',' ')\<close>).
\<close>

definition AVERROR_EAGAIN :: int where
  "AVERROR_EAGAIN = - 11"

definition AVERROR_EOF :: int where
  "AVERROR_EOF = - 541478725"

definition INT64_MAX :: int where
  "INT64_MAX = 9223372036854775807"

definition INT64_MIN :: int where
  "INT64_MIN = - 9223372036854775808"

definition AV_TIME_BASE :: int where
  "AV_TIME_BASE = 1000000"

record AVRational =
  num :: int
  den :: int

definition AV_TIME_BASE_Q :: AVRational where
  "AV_TIME_BASE_Q = \<lparr>num = 1, den = AV_TIME_BASE\<rparr>"

text \<open>
  Modelled from the spec: \<open>av_rescale_q\<close> is a function of libavutil, not of this
  repository. The spec asks for "exact rational rescaling (not floating-point)"; the
  library computes \<open>a * bq / cq\<close> in integers, rounded to the nearest integer with
  halfway cases away from zero, and answers \<open>INT64_MIN\<close> when the divisor is not
  positive, the multiplier is negative or the result does not fit 64 bits.
\<close>

definition av_rescale_near :: "int \<Rightarrow> int \<Rightarrow> int \<Rightarrow> int" where
  "av_rescale_near a b c =
     (let v = (a * b + c div 2) div c in if v > INT64_MAX then INT64_MIN else v)"

definition av_rescale_rnd :: "int \<Rightarrow> int \<Rightarrow> int \<Rightarrow> int" where
  "av_rescale_rnd a b c =
     (if c \<le> 0 \<or> b < 0 then INT64_MIN
      else if a < 0 then
        (let r = av_rescale_near (- max a (- INT64_MAX)) b c
         in if r = INT64_MIN then INT64_MIN else - r)
      else av_rescale_near a b c)"

definition av_rescale_q :: "int \<Rightarrow> AVRational \<Rightarrow> AVRational \<Rightarrow> int" where
  "av_rescale_q a bq cq = av_rescale_rnd a (num bq * den cq) (num cq * den bq)"

text \<open>What a call hands back: it returns a value or throws \<open>std::runtime_error\<close>.\<close>

datatype 'a outcome = Returned 'a | Threw string

datatype AVPixelFormat = AV_PIX_FMT_YUV420P | AV_PIX_FMT_RGB24 | AV_PIX_FMT_OTHER nat

text \<open>The objects a constructor acquires and must hand back.\<close>

datatype resource = FormatContext | IOHandle | CodecContext | Frame | Packet | Sws

record SwsContext =
  srcW :: int
  srcH :: int
  srcFormat :: AVPixelFormat
  dstW :: int
  dstH :: int
  dstFormat :: AVPixelFormat

section \<open>VideoEncoder\<close>

text \<open>Calls made on the output container, in order.\<close>

datatype out_event = WroteHeader | WroteFrame | WroteTrailer

text \<open>
  What the library answers while the constructor runs. \<open>fps_millis\<close> stands for
  \<open>lround(fps * 1000)\<close>, the only use of the floating-point frame rate that the
  claims depend on. \<open>muxer_time_base\<close> is the stream time base the muxer settles on
  in \<open>avformat_write_header\<close> (\<open>None\<close>: it keeps the one the constructor asked for).
  The three scripts are the answers the codec and the scaler will give to later calls,
  one per call; a call on an exhausted script has no answer, and the model yields
  \<open>None\<close>.
\<close>

record enc_setup =
  alloc_output_ok :: bool
  AVFMT_NOFILE :: bool
  avio_open_ret :: int
  encoder_found :: bool
  new_stream_ok :: bool
  alloc_context_ok :: bool
  open2_ret :: int
  parameters_ret :: int
  write_header_ret :: int
  muxer_time_base :: "AVRational option"
  frame_alloc_ok :: bool
  frame_get_buffer_ret :: int
  packet_alloc_ok :: bool
  send_script :: "int list"
  receive_script :: "int list"
  sws_script :: "bool list"

text \<open>
  The object together with the part of the world it acts on. \<open>live\<close> is the set of
  acquired and not yet released resources, \<open>muxed\<close> the calls made on the container.
  \<open>pts_log\<close> records every value assigned to \<open>frame->pts\<close>, \<open>scale_log\<close> every
  \<open>sws_scale\<close> call as the context used and the width and height of that call.
\<close>

record VideoEncoder =
  nofile :: bool
  codec_time_base :: AVRational
  stream_time_base :: AVRational
  pix_fmt :: AVPixelFormat
  m_frame_width :: int
  m_frame_height :: int
  m_sws_context :: "SwsContext option"
  m_finalized :: bool
  m_pts :: int
  live :: "resource set"
  muxed :: "out_event list"
  send_frame_rets :: "int list"
  receive_packet_rets :: "int list"
  sws_getContext_rets :: "bool list"
  pts_log :: "int list"
  scale_log :: "(SwsContext \<times> int \<times> int) list"

text \<open>A constructor that throws: the message, what is still acquired, what was written.\<close>

record ctor_failure =
  message :: string
  leaked :: "resource set"
  written :: "out_event list"

definition ctor_throw :: "string \<Rightarrow> resource set \<Rightarrow> out_event list \<Rightarrow> ctor_failure + 'a" where
  "ctor_throw msg rs evs = Inl \<lparr>message = msg, leaked = rs, written = evs\<rparr>"

text \<open>
  \<open>VideoEncoder::VideoEncoder\<close>. Every \<open>throw\<close> leaves the constructor as it stands:
  the members are raw pointers and C++ does not run the destructor of an object whose
  constructor throws, so what is acquired at the \<open>throw\<close> stays acquired.
\<close>

definition VideoEncoder_ctor :: "enc_setup \<Rightarrow> int \<Rightarrow> int \<Rightarrow> int \<Rightarrow> ctor_failure + VideoEncoder" where
  "VideoEncoder_ctor env width height fps_millis =
     (if \<not> alloc_output_ok env then
        ctor_throw ''Could not allocate output format context'' {} []
      else let r1 = {FormatContext} in
      if \<not> AVFMT_NOFILE env \<and> avio_open_ret env < 0 then
        ctor_throw ''Could not open output file'' r1 []
      else let r2 = (if AVFMT_NOFILE env then r1 else insert IOHandle r1) in
      if \<not> encoder_found env then
        ctor_throw ''Could not find encoder'' r2 []
      else if \<not> new_stream_ok env then
        ctor_throw ''Could not create new stream'' r2 []
      else if \<not> alloc_context_ok env then
        ctor_throw ''Could not allocate video codec context'' r2 []
      else let r3 = insert CodecContext r2;
               tb = \<lparr>num = 1000, den = fps_millis\<rparr> in
      if open2_ret env < 0 then
        ctor_throw ''Could not open codec'' r3 []
      else if parameters_ret env < 0 then
        ctor_throw ''Could not copy codec parameters to stream'' r3 []
      else if write_header_ret env < 0 then
        ctor_throw ''Could not write format header'' r3 []
      else let evs = [WroteHeader] in
      if \<not> frame_alloc_ok env then
        ctor_throw ''Could not allocate video frame'' r3 evs
      else let r4 = insert Frame r3 in
      if frame_get_buffer_ret env < 0 then
        ctor_throw ''Could not allocate frame buffer'' r4 evs
      else if \<not> packet_alloc_ok env then
        ctor_throw ''Could not allocate packet'' r4 evs
      else Inr \<lparr>nofile = AVFMT_NOFILE env,
                 codec_time_base = tb,
                 stream_time_base = (case muxer_time_base env of None \<Rightarrow> tb | Some q \<Rightarrow> q),
                 pix_fmt = AV_PIX_FMT_YUV420P,
                 m_frame_width = width,
                 m_frame_height = height,
                 m_sws_context = None,
                 m_finalized = False,
                 m_pts = 0,
                 live = insert Packet r4,
                 muxed = evs,
                 send_frame_rets = send_script env,
                 receive_packet_rets = receive_script env,
                 sws_getContext_rets = sws_script env,
                 pts_log = [],
                 scale_log = []\<rparr>)"

text \<open>
  The drain loop of the internal \<open>encodeFrame\<close> (it occurs twice there, with the same
  body): \<open>EAGAIN\<close> leaves the loop, \<open>AVERROR_EOF\<close> returns from the function, any other
  negative code throws, anything else writes the packet and goes round again.
\<close>

datatype drain_result = DrainAgain | DrainEOF | DrainError

fun receive_packets :: "int list \<Rightarrow> out_event list \<Rightarrow> (drain_result \<times> int list \<times> out_event list) option" where
  "receive_packets [] out = None"
| "receive_packets (ret # rets) out =
     (if ret = AVERROR_EAGAIN then Some (DrainAgain, rets, out)
      else if ret = AVERROR_EOF then Some (DrainEOF, rets, out)
      else if ret < 0 then Some (DrainError, rets, out)
      else receive_packets rets (out @ [WroteFrame]))"

text \<open>The send loop of the internal \<open>encodeFrame\<close>.\<close>

datatype send_result = Sent | SendReturn | SendThrow string

fun send_loop :: "int list \<Rightarrow> int list \<Rightarrow> out_event list \<Rightarrow>
    (send_result \<times> int list \<times> int list \<times> out_event list) option" where
  "send_loop [] recvs out = None"
| "send_loop (ret # sends) recvs out =
     (if ret = AVERROR_EAGAIN then
        (case receive_packets recvs out of
           None \<Rightarrow> None
         | Some (DrainAgain, recvs', out') \<Rightarrow> send_loop sends recvs' out'
         | Some (DrainEOF, recvs', out') \<Rightarrow> Some (SendReturn, sends, recvs', out')
         | Some (DrainError, recvs', out') \<Rightarrow>
             Some (SendThrow ''Error receiving packet from encoder'', sends, recvs', out'))
      else if ret = AVERROR_EOF then Some (SendReturn, sends, recvs, out)
      else if ret < 0 then Some (SendThrow ''Error sending frame to encoder'', sends, recvs, out)
      else Some (Sent, sends, recvs, out))"

text \<open>\<open>VideoEncoder::encodeFrame(AVFrame*)\<close>, the internal submit.\<close>

definition encodeFrame_av :: "VideoEncoder \<Rightarrow> (unit outcome \<times> VideoEncoder) option" where
  "encodeFrame_av e =
     (let e1 = e\<lparr>pts_log := pts_log e @ [av_rescale_q (m_pts e) (codec_time_base e) (stream_time_base e)],
                 m_pts := m_pts e + 1\<rparr>
      in case send_loop (send_frame_rets e1) (receive_packet_rets e1) (muxed e1) of
           None \<Rightarrow> None
         | Some (SendReturn, sends, recvs, out) \<Rightarrow>
             Some (Returned (), e1\<lparr>send_frame_rets := sends, receive_packet_rets := recvs, muxed := out\<rparr>)
         | Some (SendThrow msg, sends, recvs, out) \<Rightarrow>
             Some (Threw msg, e1\<lparr>send_frame_rets := sends, receive_packet_rets := recvs, muxed := out\<rparr>)
         | Some (Sent, sends, recvs, out) \<Rightarrow>
             (case receive_packets recvs out of
                None \<Rightarrow> None
              | Some (DrainError, recvs', out') \<Rightarrow>
                  Some (Threw ''Error receiving packet from encoder'',
                        e1\<lparr>send_frame_rets := sends, receive_packet_rets := recvs', muxed := out'\<rparr>)
              | Some (_, recvs', out') \<Rightarrow>
                  Some (Returned (),
                        e1\<lparr>send_frame_rets := sends, receive_packet_rets := recvs', muxed := out'\<rparr>)))"

text \<open>\<open>VideoEncoder::encodeFrame(const uint8_t*, int, int)\<close>, the public entry point.\<close>

definition encodeFrame :: "int \<Rightarrow> int \<Rightarrow> VideoEncoder \<Rightarrow> (unit outcome \<times> VideoEncoder) option" where
  "encodeFrame width height e =
     (if m_sws_context e = None \<or> width \<noteq> m_frame_width e \<or> height \<noteq> m_frame_height e then
        (case sws_getContext_rets e of
           [] \<Rightarrow> None
         | ok # rets \<Rightarrow>
             if ok then
               (let ctx = \<lparr>srcW = width, srcH = height, srcFormat = AV_PIX_FMT_RGB24,
                           dstW = m_frame_width e, dstH = m_frame_height e, dstFormat = pix_fmt e\<rparr>
                in encodeFrame_av
                     (e\<lparr>sws_getContext_rets := rets, m_sws_context := Some ctx,
                        live := insert Sws (live e),
                        scale_log := scale_log e @ [(ctx, width, height)]\<rparr>))
             else Some (Threw ''Failed to create scaling context'',
                        e\<lparr>sws_getContext_rets := rets, m_sws_context := None,
                          live := live e - {Sws}\<rparr>))
      else
        (case m_sws_context e of
           None \<Rightarrow> None
         | Some ctx \<Rightarrow> encodeFrame_av (e\<lparr>scale_log := scale_log e @ [(ctx, width, height)]\<rparr>)))"

text \<open>
  The flush loop of \<open>finalize\<close>: only \<open>AVERROR_EOF\<close> and \<open>EAGAIN\<close> leave it; on any
  other code, an error included, the packet is written and the loop goes on.
\<close>

fun flush_packets :: "int list \<Rightarrow> out_event list \<Rightarrow> (int list \<times> out_event list) option" where
  "flush_packets [] out = None"
| "flush_packets (ret # rets) out =
     (if ret = AVERROR_EOF \<or> ret = AVERROR_EAGAIN then Some (rets, out)
      else flush_packets rets (out @ [WroteFrame]))"

text \<open>\<open>VideoEncoder::finalize\<close>. The result of sending the null frame is not looked at.\<close>

definition finalize :: "VideoEncoder \<Rightarrow> VideoEncoder option" where
  "finalize e =
     (if \<not> m_finalized e then
        (case send_frame_rets e of
           [] \<Rightarrow> None
         | ret # sends \<Rightarrow>
             (case flush_packets (receive_packet_rets e) (muxed e) of
                None \<Rightarrow> None
              | Some (recvs, out) \<Rightarrow>
                  Some (e\<lparr>send_frame_rets := sends, receive_packet_rets := recvs,
                          muxed := out @ [WroteTrailer], m_finalized := True\<rparr>)))
      else Some e)"

text \<open>
  \<open>VideoEncoder::~VideoEncoder\<close>, for a constructed object (frame, packet, codec context
  and format context are then non-null, so their guards pass).
\<close>

definition destroy :: "VideoEncoder \<Rightarrow> VideoEncoder option" where
  "destroy e =
     (case finalize e of
        None \<Rightarrow> None
      | Some e1 \<Rightarrow>
          Some (e1\<lparr>live := (live e1 - (if m_sws_context e1 \<noteq> None then {Sws} else {})
                              - {Frame} - {Packet} - {CodecContext}
                              - (if \<not> nofile e1 then {IOHandle} else {})
                              - {FormatContext})\<rparr>))"

text \<open>A session: calls of the public methods, in order. A call that throws is caught
  by the caller, and the session goes on with the object as the call left it.\<close>

datatype enc_op = Encode int int | Finalize

fun run_op :: "enc_op \<Rightarrow> VideoEncoder \<Rightarrow> VideoEncoder option" where
  "run_op (Encode w h) e = map_option snd (encodeFrame w h e)"
| "run_op Finalize e = finalize e"

fun run_ops :: "enc_op list \<Rightarrow> VideoEncoder \<Rightarrow> VideoEncoder option" where
  "run_ops [] e = Some e"
| "run_ops (x # xs) e = (case run_op x e of None \<Rightarrow> None | Some e' \<Rightarrow> run_ops xs e')"

text \<open>How many times \<open>av_write_trailer\<close> was called.\<close>

definition count_trailers :: "out_event list \<Rightarrow> nat" where
  "count_trailers evs = length (filter (\<lambda>ev. ev = WroteTrailer) evs)"

text \<open>Construction followed by a session; \<open>None\<close> when construction throws.\<close>

definition session :: "enc_setup \<Rightarrow> int \<Rightarrow> int \<Rightarrow> int \<Rightarrow> enc_op list \<Rightarrow> VideoEncoder option" where
  "session env width height fps_millis ops =
     (case VideoEncoder_ctor env width height fps_millis of
        Inl failure \<Rightarrow> None
      | Inr e0 \<Rightarrow> run_ops ops e0)"

text \<open>A library on which every step of construction succeeds, the output being a file.\<close>

definition ok_setup :: "AVRational option \<Rightarrow> int list \<Rightarrow> int list \<Rightarrow> bool list \<Rightarrow> enc_setup" where
  "ok_setup tb sends recvs sws =
     \<lparr>alloc_output_ok = True, AVFMT_NOFILE = False, avio_open_ret = 0, encoder_found = True,
      new_stream_ok = True, alloc_context_ok = True, open2_ret = 0, parameters_ret = 0,
      write_header_ret = 0, muxer_time_base = tb, frame_alloc_ok = True,
      frame_get_buffer_ret = 0, packet_alloc_ok = True,
      send_script = sends, receive_script = recvs, sws_script = sws\<rparr>"

text \<open>Two invariants of an encoder: the trailer is in the container exactly when the
  encoder is finalized, and the timestamps assigned so far are the rescaled counters
  \<open>0, 1, ...\<close> up to \<open>m_pts\<close>.\<close>

definition trailer_inv :: "VideoEncoder \<Rightarrow> bool" where
  "trailer_inv e = (count_trailers (muxed e) = (if m_finalized e then 1 else 0))"

definition pts_inv :: "AVRational \<Rightarrow> AVRational \<Rightarrow> VideoEncoder \<Rightarrow> bool" where
  "pts_inv ctb stb e =
     (codec_time_base e = ctb \<and> stream_time_base e = stb \<and> 0 \<le> m_pts e \<and>
      pts_log e = map (\<lambda>n. av_rescale_q (int n) ctb stb) [0..<nat (m_pts e)])"

section \<open>VideoDecoder\<close>

text \<open>The fields of \<open>AVStream\<close> (with its \<open>codecpar\<close>) and of \<open>AVFrame\<close> that the
  code reads.\<close>

datatype AVMediaType = AVMEDIA_TYPE_VIDEO | AVMEDIA_TYPE_AUDIO | AVMEDIA_TYPE_OTHER

record AVStream =
  codec_type :: AVMediaType
  codec_id :: nat
  time_base :: AVRational
  duration :: int

record AVFrame =
  frame_width :: int
  frame_height :: int
  frame_format :: AVPixelFormat
  best_effort_timestamp :: int

text \<open>Calls made on the demuxer, the decoder and the scaler, in order.\<close>

datatype dec_call =
    Call_read_frame
  | Call_send_packet
  | Call_receive_frame
  | Call_flush_buffers
  | Call_seek_frame int
  | Call_sws_getContext

text \<open>
  What the library answers while the constructor runs: the return codes, the streams of
  the container and the codec ids with a registered decoder. The scripts are the answers
  to later calls, one per call: \<open>av_read_frame\<close> answers a return code and the
  packet's stream index, \<open>avcodec_receive_frame\<close> a return code and the picture it
  puts into \<open>m_frame\<close>. A call on an exhausted script has no answer (\<open>None\<close>).
\<close>

record dec_setup =
  open_input_ret :: int
  find_stream_info_ret :: int
  streams :: "AVStream list"
  registered_decoders :: "nat list"
  dec_alloc_context_ok :: bool
  parameters_to_context_ret :: int
  dec_open2_ret :: int
  dec_packet_alloc_ok :: bool
  dec_frame_alloc_ok :: bool
  read_script :: "(int \<times> int) list"
  send_packet_script :: "int list"
  receive_frame_script :: "(int \<times> AVFrame) list"
  seek_script :: "int list"
  dec_sws_script :: "bool list"

text \<open>
  The object with the part of the world it acts on. \<open>m_frame\<close> is the picture the
  frame buffer holds, \<open>calls\<close> the library calls made so far. \<open>rgb_buffer\<close> and
  \<open>pts_out\<close> are the caller's: the picture whose pixels the caller's buffer holds, and
  the value behind the caller's \<open>pts\<close> pointer.
\<close>

record VideoDecoder =
  m_format_context_streams :: "AVStream list"
  m_video_stream_index :: int
  m_frame :: "AVFrame option"
  dec_live :: "resource set"
  read_frame_rets :: "(int \<times> int) list"
  send_packet_rets :: "int list"
  receive_frame_rets :: "(int \<times> AVFrame) list"
  seek_frame_rets :: "int list"
  dec_sws_rets :: "bool list"
  calls :: "dec_call list"
  rgb_buffer :: "AVFrame option"
  pts_out :: "int option"

text \<open>The stream loop of the constructor: it has no \<open>break\<close>, so the last video stream
  wins; \<open>idx\<close> starts at \<open>-1\<close>.\<close>

fun find_video_stream :: "AVStream list \<Rightarrow> nat \<Rightarrow> int \<Rightarrow> int" where
  "find_video_stream [] i idx = idx"
| "find_video_stream (s # ss) i idx =
     find_video_stream ss (Suc i) (if codec_type s = AVMEDIA_TYPE_VIDEO then int i else idx)"

text \<open>\<open>avcodec_free_context\<close>, \<open>avformat_close_input\<close>, \<open>av_packet_free\<close>.\<close>

definition release :: "resource \<Rightarrow> resource set \<Rightarrow> resource set" where
  "release r rs = rs - {r}"

text \<open>\<open>VideoDecoder::VideoDecoder\<close>. A failed \<open>avformat_open_input\<close> leaves no context
  behind; every later branch releases what it names before it throws.\<close>

definition VideoDecoder_ctor :: "dec_setup \<Rightarrow> ctor_failure + VideoDecoder" where
  "VideoDecoder_ctor env =
     (if open_input_ret env \<noteq> 0 then
        ctor_throw ''couldn't open file'' {} []
      else let r1 = {FormatContext} in
      if find_stream_info_ret env < 0 then
        ctor_throw ''couldn't retrieve stream information'' (release FormatContext r1) []
      else let idx = find_video_stream (streams env) 0 (- 1) in
      if idx = - 1 then
        ctor_throw ''couldn't find a video stream'' (release FormatContext r1) []
      else let codec_parameters = streams env ! nat idx in
      if codec_id codec_parameters \<notin> set (registered_decoders env) then
        ctor_throw ''unsupported video codec'' (release FormatContext r1) []
      else if \<not> dec_alloc_context_ok env then
        ctor_throw ''couldn't allocate video codec context'' (release FormatContext r1) []
      else let r2 = insert CodecContext r1 in
      if parameters_to_context_ret env < 0 then
        ctor_throw ''couldn't copy video codec context''
          (release FormatContext (release CodecContext r2)) []
      else if dec_open2_ret env < 0 then
        ctor_throw ''couldn't open video codec''
          (release FormatContext (release CodecContext r2)) []
      else if \<not> dec_packet_alloc_ok env then
        ctor_throw ''couldn't allocate m_packet''
          (release FormatContext (release CodecContext r2)) []
      else let r3 = insert Packet r2 in
      if \<not> dec_frame_alloc_ok env then
        ctor_throw ''couldn't allocate m_frame''
          (release Packet (release FormatContext (release CodecContext r3))) []
      else Inr \<lparr>m_format_context_streams = streams env,
                 m_video_stream_index = idx,
                 m_frame = None,
                 dec_live = insert Frame r3,
                 read_frame_rets = read_script env,
                 send_packet_rets = send_packet_script env,
                 receive_frame_rets = receive_frame_script env,
                 seek_frame_rets = seek_script env,
                 dec_sws_rets = dec_sws_script env,
                 calls = [],
                 rgb_buffer = None,
                 pts_out = None\<rparr>)"

text \<open>\<open>getStream\<close>, \<open>getTotalDuration\<close> and \<open>getBestEffortTimestampInMicroseconds\<close>.\<close>

definition getStream :: "VideoDecoder \<Rightarrow> AVStream" where
  "getStream d = m_format_context_streams d ! nat (m_video_stream_index d)"

definition getTotalDuration :: "VideoDecoder \<Rightarrow> int" where
  "getTotalDuration d =
     av_rescale_q (duration (getStream d)) (time_base (getStream d)) \<lparr>num = 1, den = AV_TIME_BASE\<rparr>"

definition getBestEffortTimestampInMicroseconds :: "AVFrame \<Rightarrow> AVStream \<Rightarrow> int" where
  "getBestEffortTimestampInMicroseconds frame stream =
     av_rescale_q (best_effort_timestamp frame) (time_base stream) \<lparr>num = 1, den = AV_TIME_BASE\<rparr>"

text \<open>
  The first half of the loop body of \<open>getNextFrame(AVFrame**)\<close>, run when no frame is
  pending: read a packet and send it. \<open>False\<close> stands for \<open>return false\<close>, \<open>True\<close>
  for going on to the receive loop. At end of file the null packet is sent and its
  result is not looked at; a packet of another stream is not sent.
\<close>

definition read_packet :: "VideoDecoder \<Rightarrow> (bool \<times> VideoDecoder) option" where
  "read_packet d =
     (case read_frame_rets d of
        [] \<Rightarrow> None
      | (ret, stream_index) # reads \<Rightarrow>
          (let d1 = d\<lparr>read_frame_rets := reads, calls := calls d @ [Call_read_frame]\<rparr> in
           if ret = AVERROR_EOF then
             (case send_packet_rets d1 of
                [] \<Rightarrow> None
              | r # sends \<Rightarrow>
                  Some (True, d1\<lparr>send_packet_rets := sends, calls := calls d1 @ [Call_send_packet]\<rparr>))
           else if ret < 0 then Some (False, d1)
           else if stream_index = m_video_stream_index d then
             (case send_packet_rets d1 of
                [] \<Rightarrow> None
              | r # sends \<Rightarrow>
                  (let d2 = d1\<lparr>send_packet_rets := sends, calls := calls d1 @ [Call_send_packet]\<rparr>
                   in if r < 0 then Some (False, d2) else Some (True, d2)))
           else Some (True, d1)))"

text \<open>
  One round of the outer loop of \<open>getNextFrame(AVFrame**)\<close>. The inner loop runs once:
  \<open>EAGAIN\<close> clears the flag and breaks out to the next round (\<open>Again\<close>), everything
  else returns (\<open>Done\<close>, with the picture if there is one and the value of the flag).
  A negative code other than \<open>EAGAIN\<close> and \<open>AVERROR_EOF\<close> returns false and leaves
  the flag as it is.
\<close>

datatype frame_step = Again VideoDecoder | Done "AVFrame option" bool VideoDecoder

definition getNextFrame_body :: "bool \<Rightarrow> VideoDecoder \<Rightarrow> frame_step option" where
  "getNextFrame_body hasPendingFrames d =
     (case (if \<not> hasPendingFrames then read_packet d else Some (True, d)) of
        None \<Rightarrow> None
      | Some (False, d1) \<Rightarrow> Some (Done None hasPendingFrames d1)
      | Some (True, d1) \<Rightarrow>
          (case receive_frame_rets d1 of
             [] \<Rightarrow> None
           | (ret, frame) # recvs \<Rightarrow>
               (let d2 = d1\<lparr>receive_frame_rets := recvs, calls := calls d1 @ [Call_receive_frame]\<rparr> in
                if ret = AVERROR_EAGAIN then Some (Again (d2\<lparr>m_frame := None\<rparr>))
                else if ret = AVERROR_EOF then Some (Done None False (d2\<lparr>m_frame := None\<rparr>))
                else if ret < 0 then Some (Done None hasPendingFrames (d2\<lparr>m_frame := None\<rparr>))
                else Some (Done (Some frame) True (d2\<lparr>m_frame := Some frame\<rparr>)))))"

lemma read_packet_receive_frame_rets:
  "read_packet d = Some (b, d1) \<Longrightarrow> receive_frame_rets d1 = receive_frame_rets d"
  by (auto simp: read_packet_def Let_def split: list.splits if_splits)

lemma getNextFrame_body_Again:
  assumes "getNextFrame_body h d = Some (Again d')"
  shows "length (receive_frame_rets d') < length (receive_frame_rets d)"
proof -
  from assms obtain d1 where r: "(if \<not> h then read_packet d else Some (True, d)) = Some (True, d1)"
    and s: "length (receive_frame_rets d') < length (receive_frame_rets d1)"
    by (auto simp: getNextFrame_body_def Let_def split: option.splits bool.splits list.splits if_splits)
  from r have "receive_frame_rets d1 = receive_frame_rets d"
    by (auto dest: read_packet_receive_frame_rets split: if_splits)
  with s show ?thesis by simp
qed

text \<open>\<open>VideoDecoder::getNextFrame(AVFrame**)\<close>. The static \<open>hasPendingFrames\<close> goes in
  and comes out: \<open>Some frame\<close> is \<open>true\<close> with \<open>*out_frame\<close> set, \<open>None\<close> is \<open>false\<close>.\<close>

function getNextFrame_av :: "bool \<Rightarrow> VideoDecoder \<Rightarrow> (AVFrame option \<times> bool \<times> VideoDecoder) option" where
  "getNextFrame_av hasPendingFrames d =
     (case getNextFrame_body hasPendingFrames d of
        None \<Rightarrow> None
      | Some (Again d') \<Rightarrow> getNextFrame_av False d'
      | Some (Done frame flag d') \<Rightarrow> Some (frame, flag, d'))"
  by pat_completeness auto
termination
  by (relation "measure (\<lambda>(h, d). length (receive_frame_rets d))")
     (auto dest: getNextFrame_body_Again)

declare getNextFrame_av.simps [simp del]

lemma getNextFrame_body_frame:
  assumes "getNextFrame_body h d = Some (Done (Some frame) flag d')"
  shows "length (receive_frame_rets d') < length (receive_frame_rets d)"
proof -
  from assms obtain d1 where r: "(if \<not> h then read_packet d else Some (True, d)) = Some (True, d1)"
    and s: "length (receive_frame_rets d') < length (receive_frame_rets d1)"
    by (auto simp: getNextFrame_body_def Let_def split: option.splits bool.splits list.splits if_splits)
  from r have "receive_frame_rets d1 = receive_frame_rets d"
    by (auto dest: read_packet_receive_frame_rets split: if_splits)
  with s show ?thesis by simp
qed

lemma getNextFrame_av_frame:
  "getNextFrame_av h d = Some (Some frame, flag, d') \<Longrightarrow>
     length (receive_frame_rets d') < length (receive_frame_rets d)"
proof (induction h d rule: getNextFrame_av.induct)
  case (1 h d)
  show ?case
  proof (cases "getNextFrame_body h d")
    case None
    with "1.prems" show ?thesis by (simp add: getNextFrame_av.simps)
  next
    case (Some step)
    show ?thesis
    proof (cases step)
      case (Again d1)
      with Some "1.prems" have "getNextFrame_av False d1 = Some (Some frame, flag, d')"
        by (simp add: getNextFrame_av.simps)
      with "1.IH" Some Again have "length (receive_frame_rets d') < length (receive_frame_rets d1)"
        by simp
      moreover from Some Again have "length (receive_frame_rets d1) < length (receive_frame_rets d)"
        by (simp add: getNextFrame_body_Again)
      ultimately show ?thesis by simp
    next
      case (Done fr fl d1)
      with Some "1.prems" have "fr = Some frame" and "d1 = d'"
        by (simp_all add: getNextFrame_av.simps)
      with Some Done show ?thesis by (simp add: getNextFrame_body_frame)
    qed
  qed
qed

text \<open>
  \<open>VideoDecoder::convertAVFrameToRGBBuffer\<close>. The scaling context lives inside the call.
  \<open>rgb_buffer\<close> is the caller's buffer; it holds the converted picture afterwards.
\<close>

definition convertAVFrameToRGBBuffer :: "AVFrame \<Rightarrow> VideoDecoder \<Rightarrow> (unit outcome \<times> VideoDecoder) option" where
  "convertAVFrameToRGBBuffer frame d =
     (case dec_sws_rets d of
        [] \<Rightarrow> None
      | ok # rets \<Rightarrow>
          (let d1 = d\<lparr>dec_sws_rets := rets, calls := calls d @ [Call_sws_getContext]\<rparr> in
           if \<not> ok then Some (Threw ''failed to create scaling context'', d1)
           else Some (Returned (), d1\<lparr>rgb_buffer := Some frame\<rparr>)))"

text \<open>
  \<open>VideoDecoder::getNextFrame(uint8_t*, int64_t*)\<close>, the public call. \<open>pts_given\<close>
  says whether the \<open>pts\<close> pointer is non-null. The \<open>catch\<close> clause throws again what it
  caught.
\<close>

definition getNextFrame :: "bool \<Rightarrow> bool \<Rightarrow> VideoDecoder \<Rightarrow> (bool outcome \<times> bool \<times> VideoDecoder) option" where
  "getNextFrame pts_given hasPendingFrames d =
     (case getNextFrame_av hasPendingFrames d of
        None \<Rightarrow> None
      | Some (None, flag, d1) \<Rightarrow> Some (Returned False, flag, d1)
      | Some (Some frame, flag, d1) \<Rightarrow>
          (case convertAVFrameToRGBBuffer frame d1 of
             None \<Rightarrow> None
           | Some (Threw msg, d2) \<Rightarrow> Some (Threw msg, flag, d2)
           | Some (Returned u, d2) \<Rightarrow>
               Some (Returned True, flag,
                     if pts_given
                     then d2\<lparr>pts_out := Some (getBestEffortTimestampInMicroseconds frame (getStream d2))\<rparr>
                     else d2)))"

text \<open>The scan loop of \<open>seekToTimestamp\<close>.\<close>

function seek_scan :: "int \<Rightarrow> bool \<Rightarrow> VideoDecoder \<Rightarrow> (bool \<times> bool \<times> VideoDecoder) option" where
  "seek_scan timestamp_in_microseconds hasPendingFrames d =
     (case getNextFrame_av hasPendingFrames d of
        None \<Rightarrow> None
      | Some (None, flag, d1) \<Rightarrow> Some (False, flag, d1)
      | Some (Some frame, flag, d1) \<Rightarrow>
          if getBestEffortTimestampInMicroseconds frame (getStream d1) \<ge> timestamp_in_microseconds
          then Some (True, flag, d1)
          else seek_scan timestamp_in_microseconds flag d1)"
  by pat_completeness auto
termination
  by (relation "measure (\<lambda>(t, h, d). length (receive_frame_rets d))")
     (auto dest: getNextFrame_av_frame)

declare seek_scan.simps [simp del]

text \<open>\<open>VideoDecoder::seekToTimestamp\<close>.\<close>

definition seekToTimestamp :: "int \<Rightarrow> bool \<Rightarrow> VideoDecoder \<Rightarrow> (bool \<times> bool \<times> VideoDecoder) option" where
  "seekToTimestamp timestamp_in_microseconds hasPendingFrames d =
     (let timestamp_in_time_base =
            av_rescale_q timestamp_in_microseconds AV_TIME_BASE_Q (time_base (getStream d));
          d1 = d\<lparr>calls := calls d @ [Call_flush_buffers]\<rparr>
      in case seek_frame_rets d1 of
           [] \<Rightarrow> None
         | ret # seeks \<Rightarrow>
             (let d2 = d1\<lparr>seek_frame_rets := seeks,
                          calls := calls d1 @ [Call_seek_frame timestamp_in_time_base]\<rparr>
              in if ret < 0 then Some (False, hasPendingFrames, d2)
                 else seek_scan timestamp_in_microseconds hasPendingFrames d2))"

text \<open>
  The process. \<open>hasPendingFrames\<close> is declared \<open>static\<close> inside \<open>getNextFrame\<close>: there
  is one such variable in the process, whatever the number of decoders.
\<close>

record process =
  hasPendingFrames :: bool
  decoders :: "VideoDecoder list"

definition getNextFrame_on :: "nat \<Rightarrow> process \<Rightarrow> (AVFrame option \<times> process) option" where
  "getNextFrame_on i p =
     (if i < length (decoders p) then
        (case getNextFrame_av (hasPendingFrames p) (decoders p ! i) of
           None \<Rightarrow> None
         | Some (frame, flag, d') \<Rightarrow>
             Some (frame, p\<lparr>hasPendingFrames := flag, decoders := (decoders p)[i := d']\<rparr>))
      else None)"

definition seekToTimestamp_on :: "nat \<Rightarrow> int \<Rightarrow> process \<Rightarrow> (bool \<times> process) option" where
  "seekToTimestamp_on i t p =
     (if i < length (decoders p) then
        (case seekToTimestamp t (hasPendingFrames p) (decoders p ! i) of
           None \<Rightarrow> None
         | Some (reached, flag, d') \<Rightarrow>
             Some (reached, p\<lparr>hasPendingFrames := flag, decoders := (decoders p)[i := d']\<rparr>))
      else None)"

text \<open>The caller's sequence "seek, then next frame": what the seek answered, what the
  next call answered, and the timestamp that call handed out.\<close>

definition seek_then_next :: "int \<Rightarrow> bool \<Rightarrow> VideoDecoder \<Rightarrow> (bool \<times> bool outcome \<times> int option) option" where
  "seek_then_next t flag d =
     (case seekToTimestamp t flag d of
        None \<Rightarrow> None
      | Some (reached, flag1, d1) \<Rightarrow>
          (case getNextFrame True flag1 (d1\<lparr>pts_out := None\<rparr>) of
             None \<Rightarrow> None
           | Some (r, flag2, d2) \<Rightarrow> Some (reached, r, pts_out d2)))"

text \<open>The timestamps, in microseconds, of the pictures a decoder will deliver.\<close>

definition delivered_timestamps :: "VideoDecoder \<Rightarrow> int list" where
  "delivered_timestamps d =
     map (\<lambda>(ret, frame). getBestEffortTimestampInMicroseconds frame (getStream d))
       (filter (\<lambda>(ret, frame). 0 \<le> ret) (receive_frame_rets d))"

text \<open>
  The error kinds of the spec. The code throws \<open>std::runtime_error\<close> throughout and tells
  the cases apart by message; \<open>kind_of_message\<close> reads the spec's kind off the message,
  and \<open>spec_ctor_failure\<close> is the spec's account of when construction fails and how.
\<close>

datatype error_kind = OpenError | NoVideoStreamError | UnsupportedCodecError | InitError

definition kind_of_message :: "string \<Rightarrow> error_kind option" where
  "kind_of_message msg =
     (if msg = ''couldn't open file'' \<or> msg = ''couldn't retrieve stream information''
        then Some OpenError
      else if msg = ''couldn't find a video stream'' then Some NoVideoStreamError
      else if msg = ''unsupported video codec'' then Some UnsupportedCodecError
      else if msg = ''couldn't allocate video codec context''
            \<or> msg = ''couldn't copy video codec context''
            \<or> msg = ''couldn't open video codec''
            \<or> msg = ''couldn't allocate m_packet''
            \<or> msg = ''couldn't allocate m_frame''
        then Some InitError
      else None)"

definition is_video :: "AVStream \<Rightarrow> bool" where
  "is_video s = (codec_type s = AVMEDIA_TYPE_VIDEO)"

definition spec_ctor_failure :: "dec_setup \<Rightarrow> error_kind option" where
  "spec_ctor_failure env =
     (if open_input_ret env \<noteq> 0 \<or> find_stream_info_ret env < 0 then Some OpenError
      else if filter is_video (streams env) = [] then Some NoVideoStreamError
      else if codec_id (last (filter is_video (streams env))) \<notin> set (registered_decoders env)
        then Some UnsupportedCodecError
      else if \<not> dec_alloc_context_ok env \<or> parameters_to_context_ret env < 0
            \<or> dec_open2_ret env < 0 \<or> \<not> dec_packet_alloc_ok env \<or> \<not> dec_frame_alloc_ok env
        then Some InitError
      else None)"


text \<open>A container with one audio and one video stream, the latter in 1/90000 s ticks
  and 10800 ticks (120 ms) long; every step of construction succeeds.\<close>

definition ok_dec_setup :: "(int \<times> int) list \<Rightarrow> int list \<Rightarrow> (int \<times> AVFrame) list \<Rightarrow> int list \<Rightarrow> bool list \<Rightarrow> dec_setup" where
  "ok_dec_setup reads sends recvs seeks sws =
     \<lparr>open_input_ret = 0, find_stream_info_ret = 0,
      streams = [\<lparr>codec_type = AVMEDIA_TYPE_AUDIO, codec_id = 86018,
                  time_base = \<lparr>num = 1, den = 48000\<rparr>, duration = 5760\<rparr>,
                 \<lparr>codec_type = AVMEDIA_TYPE_VIDEO, codec_id = 27,
                  time_base = \<lparr>num = 1, den = 90000\<rparr>, duration = 10800\<rparr>],
      registered_decoders = [27, 86018],
      dec_alloc_context_ok = True, parameters_to_context_ret = 0, dec_open2_ret = 0,
      dec_packet_alloc_ok = True, dec_frame_alloc_ok = True,
      read_script = reads, send_packet_script = sends, receive_frame_script = recvs,
      seek_script = seeks, dec_sws_script = sws\<rparr>"

definition picture :: "int \<Rightarrow> AVFrame" where
  "picture ts = \<lparr>frame_width = 64, frame_height = 48, frame_format = AV_PIX_FMT_YUV420P,
                 best_effort_timestamp = ts\<rparr>"

text \<open>What decoding leaves alone: the stream table, the selected index, the caller's
  buffer and timestamp slot, the scaler's answers, the seek answers and the resources.\<close>

definition same_stream :: "VideoDecoder \<Rightarrow> VideoDecoder \<Rightarrow> bool" where
  "same_stream d d' =
     (m_format_context_streams d' = m_format_context_streams d \<and>
      m_video_stream_index d' = m_video_stream_index d \<and>
      rgb_buffer d' = rgb_buffer d \<and> pts_out d' = pts_out d \<and>
      dec_sws_rets d' = dec_sws_rets d \<and> seek_frame_rets d' = seek_frame_rets d \<and>
      dec_live d' = dec_live d)"

text \<open>The decoder that construction on \<open>ok_dec_setup\<close> yields.\<close>

definition opened_decoder :: "(int \<times> int) list \<Rightarrow> int list \<Rightarrow> (int \<times> AVFrame) list \<Rightarrow> int list \<Rightarrow> bool list \<Rightarrow> VideoDecoder" where
  "opened_decoder reads sends recvs seeks sws =
     \<lparr>m_format_context_streams = streams (ok_dec_setup reads sends recvs seeks sws),
      m_video_stream_index = 1,
      m_frame = None,
      dec_live = {FormatContext, CodecContext, Packet, Frame},
      read_frame_rets = reads,
      send_packet_rets = sends,
      receive_frame_rets = recvs,
      seek_frame_rets = seeks,
      dec_sws_rets = sws,
      calls = [],
      rgb_buffer = None,
      pts_out = None\<rparr>"

text \<open>Two decoders in one process, neither with a frame pending yet.\<close>

definition two_decoders :: process where
  "two_decoders =
     \<lparr>hasPendingFrames = False,
      decoders = [opened_decoder [(0, 1)] [0] [(0, picture 0)] [] [],
                  opened_decoder [(0, 1), (0, 1)] [0, 0]
                    [(AVERROR_EAGAIN, picture 0), (0, picture 3600)] [] []]\<rparr>"

text \<open>A stream of three pictures, at 0, 40 and 80 ms, then end of stream.\<close>

definition three_pictures :: VideoDecoder where
  "three_pictures =
     opened_decoder
       [(0, 1), (0, 1), (0, 1), (AVERROR_EOF, 0), (AVERROR_EOF, 0), (AVERROR_EOF, 0), (AVERROR_EOF, 0)]
       [0, 0, 0, 0, 0, 0, 0]
       [(0, picture 0), (AVERROR_EAGAIN, picture 0), (0, picture 3600), (AVERROR_EAGAIN, picture 0),
        (0, picture 7200), (AVERROR_EAGAIN, picture 0), (AVERROR_EOF, picture 0)]
       [0] [True]"





section \<open>Properties of the encoder\<close>

lemma receive_packets_out:
  "receive_packets rets out = Some (r, rets', out') \<Longrightarrow> \<exists>k. out' = out @ replicate k WroteFrame"
proof (induction rets arbitrary: out)
  case Nil
  then show ?case by simp
next
  case (Cons ret rets)
  show ?case
  proof (cases "ret = AVERROR_EAGAIN \<or> ret = AVERROR_EOF \<or> ret < 0")
    case True
    with Cons.prems have "out' = out" by (auto split: if_splits)
    then have "out' = out @ replicate 0 WroteFrame" by simp
    then show ?thesis by blast
  next
    case False
    with Cons.prems have "receive_packets rets (out @ [WroteFrame]) = Some (r, rets', out')"
      by (auto split: if_splits)
    from Cons.IH [OF this] obtain k where "out' = (out @ [WroteFrame]) @ replicate k WroteFrame" ..
    then have "out' = out @ replicate (Suc k) WroteFrame" by simp
    then show ?thesis by blast
  qed
qed

lemma flush_packets_out:
  "flush_packets rets out = Some (rets', out') \<Longrightarrow> \<exists>k. out' = out @ replicate k WroteFrame"
proof (induction rets arbitrary: out)
  case Nil
  then show ?case by simp
next
  case (Cons ret rets)
  show ?case
  proof (cases "ret = AVERROR_EOF \<or> ret = AVERROR_EAGAIN")
    case True
    with Cons.prems have "out' = out @ replicate 0 WroteFrame" by (auto split: if_splits)
    then show ?thesis by blast
  next
    case False
    with Cons.prems have "flush_packets rets (out @ [WroteFrame]) = Some (rets', out')"
      by (auto split: if_splits)
    from Cons.IH [OF this] obtain k where "out' = (out @ [WroteFrame]) @ replicate k WroteFrame" ..
    then have "out' = out @ replicate (Suc k) WroteFrame" by simp
    then show ?thesis by blast
  qed
qed

lemma send_loop_out:
  "send_loop sends recvs out = Some (r, sends', recvs', out') \<Longrightarrow> \<exists>k. out' = out @ replicate k WroteFrame"
proof (induction sends arbitrary: recvs out)
  case Nil
  then show ?case by simp
next
  case (Cons ret sends)
  show ?case
  proof (cases "ret = AVERROR_EAGAIN")
    case False
    with Cons.prems have "out' = out @ replicate 0 WroteFrame" by (auto split: if_splits)
    then show ?thesis by blast
  next
    case True
    then obtain d recvs1 out1 where rp: "receive_packets recvs out = Some (d, recvs1, out1)"
      using Cons.prems by (cases "receive_packets recvs out") auto
    from receive_packets_out [OF rp] obtain k where k: "out1 = out @ replicate k WroteFrame" ..
    show ?thesis
    proof (cases d)
      case DrainAgain
      with True rp Cons.prems have "send_loop sends recvs1 out1 = Some (r, sends', recvs', out')" by simp
      from Cons.IH [OF this] obtain j where "out' = out1 @ replicate j WroteFrame" ..
      with k have "out' = out @ replicate (k + j) WroteFrame" by (simp add: replicate_add)
      then show ?thesis by blast
    next
      case DrainEOF
      with True rp Cons.prems k show ?thesis by auto
    next
      case DrainError
      with True rp Cons.prems k show ?thesis by auto
    qed
  qed
qed

lemma count_trailers_frames [simp]:
  "count_trailers (out @ replicate k WroteFrame) = count_trailers out"
  by (simp add: count_trailers_def)

lemma encodeFrame_av_shape:
  assumes "encodeFrame_av e = Some (r, e')"
  shows "\<exists>sends recvs k. e' = e\<lparr>pts_log := pts_log e @ [av_rescale_q (m_pts e) (codec_time_base e) (stream_time_base e)],
                 m_pts := m_pts e + 1, send_frame_rets := sends, receive_packet_rets := recvs,
                 muxed := muxed e @ replicate k WroteFrame\<rparr>"
proof -
  let ?e1 = "e\<lparr>pts_log := pts_log e @ [av_rescale_q (m_pts e) (codec_time_base e) (stream_time_base e)],
                 m_pts := m_pts e + 1\<rparr>"
  obtain sr sends recvs out where sl: "send_loop (send_frame_rets e) (receive_packet_rets e) (muxed e) = Some (sr, sends, recvs, out)"
    using assms by (cases "send_loop (send_frame_rets e) (receive_packet_rets e) (muxed e)") (auto simp: encodeFrame_av_def)
  from send_loop_out [OF sl] obtain k where k: "out = muxed e @ replicate k WroteFrame" ..
  show ?thesis
  proof (cases sr)
    case Sent
    then obtain d recvs1 out1 where rp: "receive_packets recvs out = Some (d, recvs1, out1)"
      using assms sl by (cases "receive_packets recvs out") (auto simp: encodeFrame_av_def)
    from receive_packets_out [OF rp] obtain j where "out1 = out @ replicate j WroteFrame" ..
    with k have out1: "out1 = muxed e @ replicate (k + j) WroteFrame" by (simp add: replicate_add)
    have "e' = ?e1\<lparr>send_frame_rets := sends, receive_packet_rets := recvs1, muxed := out1\<rparr>"
      using assms sl Sent rp by (cases d) (auto simp: encodeFrame_av_def)
    with out1 show ?thesis by auto
  next
    case SendReturn
    with assms sl have "e' = ?e1\<lparr>send_frame_rets := sends, receive_packet_rets := recvs, muxed := out\<rparr>"
      by (auto simp: encodeFrame_av_def)
    with k show ?thesis by auto
  next
    case (SendThrow msg)
    with assms sl have "e' = ?e1\<lparr>send_frame_rets := sends, receive_packet_rets := recvs, muxed := out\<rparr>"
      by (auto simp: encodeFrame_av_def)
    with k show ?thesis by auto
  qed
qed

lemma encodeFrame_shape:
  assumes "encodeFrame w h e = Some (r, e')"
  shows "\<exists>ctx rets lv sl sends recvs k pl p.
           e' = e\<lparr>m_sws_context := ctx, sws_getContext_rets := rets, live := lv, scale_log := sl,
                   pts_log := pl, m_pts := p, send_frame_rets := sends, receive_packet_rets := recvs,
                   muxed := muxed e @ replicate k WroteFrame\<rparr>
           \<and> ((pl = pts_log e \<and> p = m_pts e) \<or>
              (pl = pts_log e @ [av_rescale_q (m_pts e) (codec_time_base e) (stream_time_base e)] \<and> p = m_pts e + 1))"
proof (cases "m_sws_context e = None \<or> w \<noteq> m_frame_width e \<or> h \<noteq> m_frame_height e")
  case True
  then obtain ok rets where s: "sws_getContext_rets e = ok # rets"
    using assms by (cases "sws_getContext_rets e") (auto simp: encodeFrame_def)
  show ?thesis
  proof (cases ok)
    case False
    with True s assms have "e' = e\<lparr>sws_getContext_rets := rets, m_sws_context := None, live := live e - {Sws}\<rparr>"
      by (auto simp: encodeFrame_def)
    then have "e' = e\<lparr>m_sws_context := None, sws_getContext_rets := rets, live := live e - {Sws}, scale_log := scale_log e,
                   pts_log := pts_log e, m_pts := m_pts e, send_frame_rets := send_frame_rets e, receive_packet_rets := receive_packet_rets e,
                   muxed := muxed e @ replicate 0 WroteFrame\<rparr>" by simp
    then show ?thesis by blast
  next
    case ok: True
    define ctx where "ctx = \<lparr>srcW = w, srcH = h, srcFormat = AV_PIX_FMT_RGB24,
                           dstW = m_frame_width e, dstH = m_frame_height e, dstFormat = pix_fmt e\<rparr>"
    define e0 where "e0 = e\<lparr>sws_getContext_rets := rets, m_sws_context := Some ctx,
                        live := insert Sws (live e), scale_log := scale_log e @ [(ctx, w, h)]\<rparr>"
    from True s ok assms have "encodeFrame_av e0 = Some (r, e')"
      by (auto simp: encodeFrame_def e0_def ctx_def Let_def)
    from encodeFrame_av_shape [OF this] obtain sends recvs k where
      "e' = e0\<lparr>pts_log := pts_log e0 @ [av_rescale_q (m_pts e0) (codec_time_base e0) (stream_time_base e0)],
                 m_pts := m_pts e0 + 1, send_frame_rets := sends, receive_packet_rets := recvs,
                 muxed := muxed e0 @ replicate k WroteFrame\<rparr>" by blast
    then have "e' = e\<lparr>m_sws_context := Some ctx, sws_getContext_rets := rets, live := insert Sws (live e), scale_log := scale_log e @ [(ctx, w, h)],
                   pts_log := pts_log e @ [av_rescale_q (m_pts e) (codec_time_base e) (stream_time_base e)], m_pts := m_pts e + 1, send_frame_rets := sends, receive_packet_rets := recvs,
                   muxed := muxed e @ replicate k WroteFrame\<rparr>" by (simp add: e0_def)
    then show ?thesis by blast
  qed
next
  case False
  then obtain ctx where c: "m_sws_context e = Some ctx" by auto
  define e0 where "e0 = e\<lparr>scale_log := scale_log e @ [(ctx, w, h)]\<rparr>"
  from False c assms have "encodeFrame_av e0 = Some (r, e')"
    by (auto simp: encodeFrame_def e0_def)
  from encodeFrame_av_shape [OF this] obtain sends recvs k where
      "e' = e0\<lparr>pts_log := pts_log e0 @ [av_rescale_q (m_pts e0) (codec_time_base e0) (stream_time_base e0)],
                 m_pts := m_pts e0 + 1, send_frame_rets := sends, receive_packet_rets := recvs,
                 muxed := muxed e0 @ replicate k WroteFrame\<rparr>" by blast
  then have "e' = e\<lparr>m_sws_context := m_sws_context e, sws_getContext_rets := sws_getContext_rets e, live := live e, scale_log := scale_log e @ [(ctx, w, h)],
                   pts_log := pts_log e @ [av_rescale_q (m_pts e) (codec_time_base e) (stream_time_base e)], m_pts := m_pts e + 1, send_frame_rets := sends, receive_packet_rets := recvs,
                   muxed := muxed e @ replicate k WroteFrame\<rparr>" by (simp add: e0_def)
  then show ?thesis by blast
qed

lemma finalize_shape:
  assumes "finalize e = Some e'"
  shows "(m_finalized e \<and> e' = e) \<or>
         (\<not> m_finalized e \<and> (\<exists>sends recvs k. e' = e\<lparr>send_frame_rets := sends, receive_packet_rets := recvs,
              muxed := muxed e @ replicate k WroteFrame @ [WroteTrailer], m_finalized := True\<rparr>))"
proof (cases "m_finalized e")
  case True
  with assms show ?thesis by (simp add: finalize_def)
next
  case False
  then obtain ret sends where s: "send_frame_rets e = ret # sends"
    using assms by (cases "send_frame_rets e") (auto simp: finalize_def)
  with False assms obtain recvs out where f: "flush_packets (receive_packet_rets e) (muxed e) = Some (recvs, out)"
    by (cases "flush_packets (receive_packet_rets e) (muxed e)") (auto simp: finalize_def)
  from flush_packets_out [OF f] obtain k where "out = muxed e @ replicate k WroteFrame" ..
  with False s f assms have "e' = e\<lparr>send_frame_rets := sends, receive_packet_rets := recvs,
              muxed := muxed e @ replicate k WroteFrame @ [WroteTrailer], m_finalized := True\<rparr>"
    by (auto simp: finalize_def)
  with False show ?thesis by blast
qed

lemma ctor_fields:
  assumes "VideoEncoder_ctor env w h f = Inr e0"
  shows "codec_time_base e0 = \<lparr>num = 1000, den = f\<rparr>"
    and "stream_time_base e0 = (case muxer_time_base env of None \<Rightarrow> \<lparr>num = 1000, den = f\<rparr> | Some q \<Rightarrow> q)"
    and "m_pts e0 = 0" and "pts_log e0 = []" and "muxed e0 = [WroteHeader]" and "\<not> m_finalized e0"
  using assms
  by (auto simp: VideoEncoder_ctor_def ctor_throw_def Let_def split: if_splits)

lemma trailer_inv_ctor: "VideoEncoder_ctor env w h f = Inr e0 \<Longrightarrow> trailer_inv e0"
  by (simp add: trailer_inv_def ctor_fields count_trailers_def)

lemma pts_inv_ctor:
  "VideoEncoder_ctor env w h f = Inr e0 \<Longrightarrow>
     pts_inv \<lparr>num = 1000, den = f\<rparr> (case muxer_time_base env of None \<Rightarrow> \<lparr>num = 1000, den = f\<rparr> | Some q \<Rightarrow> q) e0"
  by (simp add: pts_inv_def ctor_fields)

lemma pts_inv_step:
  assumes "pts_inv ctb stb e"
  shows "pts_inv ctb stb (e\<lparr>m_sws_context := ctx, sws_getContext_rets := rets, live := lv, scale_log := sl,
                   pts_log := pts_log e @ [av_rescale_q (m_pts e) (codec_time_base e) (stream_time_base e)],
                   m_pts := m_pts e + 1, send_frame_rets := sends, receive_packet_rets := recvs,
                   muxed := out\<rparr>)"
proof -
  from assms have p: "0 \<le> m_pts e" by (simp add: pts_inv_def)
  then have "nat (m_pts e + 1) = Suc (nat (m_pts e))" by simp
  with assms p show ?thesis by (simp add: pts_inv_def)
qed

lemma trailer_inv_run_op:
  assumes "trailer_inv e" and "run_op x e = Some e'"
  shows "trailer_inv e'"
proof (cases x)
  case (Encode w h)
  with assms(2) obtain r where "encodeFrame w h e = Some (r, e')" by auto
  from encodeFrame_shape [OF this] assms(1) show ?thesis
    by (auto simp: trailer_inv_def)
next
  case Finalize
  with assms(2) have "finalize e = Some e'" by simp
  from finalize_shape [OF this] assms(1) show ?thesis
    by (auto simp: trailer_inv_def count_trailers_def)
qed

lemma pts_inv_run_op:
  assumes "pts_inv ctb stb e" and "run_op x e = Some e'"
  shows "pts_inv ctb stb e'"
proof (cases x)
  case (Encode w h)
  with assms(2) obtain r where "encodeFrame w h e = Some (r, e')" by auto
  from encodeFrame_shape [OF this] obtain ctx rets lv sl sends recvs k pl p where
    e': "e' = e\<lparr>m_sws_context := ctx, sws_getContext_rets := rets, live := lv, scale_log := sl,
                   pts_log := pl, m_pts := p, send_frame_rets := sends, receive_packet_rets := recvs,
                   muxed := muxed e @ replicate k WroteFrame\<rparr>"
    and d: "(pl = pts_log e \<and> p = m_pts e) \<or>
              (pl = pts_log e @ [av_rescale_q (m_pts e) (codec_time_base e) (stream_time_base e)] \<and> p = m_pts e + 1)"
    by blast
  from d show ?thesis
  proof
    assume "pl = pts_log e \<and> p = m_pts e"
    with e' assms(1) show ?thesis by (simp add: pts_inv_def)
  next
    assume "pl = pts_log e @ [av_rescale_q (m_pts e) (codec_time_base e) (stream_time_base e)] \<and> p = m_pts e + 1"
    with e' pts_inv_step [OF assms(1)] show ?thesis by simp
  qed
next
  case Finalize
  with assms(2) have "finalize e = Some e'" by simp
  from finalize_shape [OF this] assms(1) show ?thesis
    by (auto simp: pts_inv_def)
qed

lemma trailer_inv_run_ops:
  "trailer_inv e \<Longrightarrow> run_ops ops e = Some e' \<Longrightarrow> trailer_inv e'"
proof (induction ops arbitrary: e)
  case Nil
  then show ?case by simp
next
  case (Cons x xs)
  then obtain e1 where s: "run_op x e = Some e1" and r: "run_ops xs e1 = Some e'"
    by (auto split: option.splits)
  from trailer_inv_run_op [OF Cons.prems(1) s] r show ?case by (rule Cons.IH)
qed

lemma pts_inv_run_ops:
  "pts_inv ctb stb e \<Longrightarrow> run_ops ops e = Some e' \<Longrightarrow> pts_inv ctb stb e'"
proof (induction ops arbitrary: e)
  case Nil
  then show ?case by simp
next
  case (Cons x xs)
  then obtain e1 where s: "run_op x e = Some e1" and r: "run_ops xs e1 = Some e'"
    by (auto split: option.splits)
  from pts_inv_run_op [OF Cons.prems(1) s] r show ?case by (rule Cons.IH)
qed

lemma round_div_le:
  assumes "0 \<le> (x::int)" and "0 < c"
  shows "(x + c div 2) div c \<le> x"
proof -
  have "x + c div 2 < (x + 1) * c"
  proof -
    have "c div 2 < c" using assms(2) by simp
    moreover have "x \<le> x * c" using assms by (simp add: mult_le_cancel_left1)
    ultimately show ?thesis by (simp add: algebra_simps)
  qed
  moreover have "c * ((x + c div 2) div c) \<le> x + c div 2"
  proof -
    have "c * ((x + c div 2) div c) + (x + c div 2) mod c = x + c div 2"
      by (rule mult_div_mod_eq)
    moreover have "0 \<le> (x + c div 2) mod c" using assms(2) by simp
    ultimately show ?thesis by linarith
  qed
  ultimately have "c * ((x + c div 2) div c) < c * (x + 1)" by (simp add: mult.commute)
  then have "(x + c div 2) div c < x + 1"
    using assms(2) by (simp add: mult_less_cancel_left_pos)
  then show ?thesis by simp
qed

lemma av_rescale_rnd_nonneg:
  assumes "0 \<le> a" and "0 \<le> b" and "0 < c" and "a * b \<le> INT64_MAX"
  shows "av_rescale_rnd a b c = (a * b + c div 2) div c"
proof -
  have "0 \<le> a * b" using assms by simp
  from round_div_le [OF this assms(3)] assms(4) have "(a * b + c div 2) div c \<le> INT64_MAX" by simp
  with assms show ?thesis by (simp add: av_rescale_rnd_def av_rescale_near_def Let_def)
qed

lemma rescale_mono:
  assumes "0 \<le> m" and "m \<le> n" and "0 \<le> b" and "0 < c" and "n * b \<le> INT64_MAX"
  shows "av_rescale_rnd m b c \<le> av_rescale_rnd n b c"
proof -
  have mn: "m * b \<le> n * b" using assms by (simp add: mult_right_mono)
  then have "m * b \<le> INT64_MAX" using assms(5) by simp
  with assms have "av_rescale_rnd m b c = (m * b + c div 2) div c"
    by (intro av_rescale_rnd_nonneg) auto
  moreover from assms have "av_rescale_rnd n b c = (n * b + c div 2) div c"
    by (intro av_rescale_rnd_nonneg) auto
  moreover have "(m * b + c div 2) div c \<le> (n * b + c div 2) div c"
    using mn assms(4) by (simp add: zdiv_mono1)
  ultimately show ?thesis by simp
qed

lemma rescale_strict_mono:
  assumes "0 \<le> m" and "m < n" and "c \<le> b" and "0 < c" and "n * b \<le> INT64_MAX"
  shows "av_rescale_rnd m b c < av_rescale_rnd n b c"
proof -
  have b: "0 \<le> b" using assms by simp
  have "m + 1 \<le> n" using assms by simp
  then have "(m + 1) * b \<le> n * b" using b by (rule mult_right_mono)
  then have mn: "m * b + c \<le> n * b" using assms(3) by (simp add: algebra_simps)
  then have "m * b \<le> n * b" using assms(4) by simp
  then have "m * b \<le> INT64_MAX" using assms(5) by simp
  with assms b have "av_rescale_rnd m b c = (m * b + c div 2) div c"
    by (intro av_rescale_rnd_nonneg) auto
  moreover from assms b have "av_rescale_rnd n b c = (n * b + c div 2) div c"
    by (intro av_rescale_rnd_nonneg) auto
  moreover have "(m * b + c div 2) div c < (n * b + c div 2) div c"
  proof -
    have "c \<noteq> 0" using assms(4) by simp
    then have "(m * b + c div 2) div c + 1 = (m * b + c div 2 + c) div c"
      by (rule div_add_self2 [symmetric])
    also have "\<dots> \<le> (n * b + c div 2) div c"
      using mn assms(4) by (intro zdiv_mono1) auto
    finally show ?thesis by simp
  qed
  ultimately show ?thesis by simp
qed

lemmas eval_simps = session_def ok_setup_def VideoEncoder_ctor_def ctor_throw_def encodeFrame_def
  encodeFrame_av_def finalize_def destroy_def av_rescale_q_def av_rescale_rnd_def av_rescale_near_def
  AVERROR_EOF_def AVERROR_EAGAIN_def INT64_MAX_def INT64_MIN_def Let_def count_trailers_def

lemma run_ops_finalized:
  "finalize e = Some e1 \<Longrightarrow> run_ops (replicate n Finalize) e1 = Some e1"
proof (induction n)
  case 0
  then show ?case by simp
next
  case (Suc n)
  from finalize_shape [OF Suc.prems] have "m_finalized e1" by auto
  then have "finalize e1 = Some e1" by (simp add: finalize_def)
  with Suc show ?case by simp
qed

text \<open>
  C5. \<open>finalize\<close> is idempotent: a second call changes nothing, so any number of calls
  (one or more) leaves the encoder and the container as one call does. A call writes one
  trailer when the encoder was not finalized and none when it was. The destructor runs
  \<open>finalize\<close> first, so it writes what \<open>finalize\<close> would write when the caller never
  finalized, and nothing when the caller did. Over a whole session, from construction
  through any calls of \<open>encodeFrame\<close> and \<open>finalize\<close>, at most one trailer is
  written, and exactly one once the object is destroyed.
\<close>

theorem finalize_idempotent:
  "(finalize e = Some e1 \<longrightarrow>
      finalize e1 = Some e1
      \<and> run_ops (replicate (Suc n) Finalize) e = Some e1
      \<and> count_trailers (muxed e1) = count_trailers (muxed e) + (if m_finalized e then 0 else 1)
      \<and> (\<exists>e2. destroy e = Some e2 \<and> muxed e2 = muxed e1 \<and> m_finalized e2)
      \<and> (\<exists>e3. destroy e1 = Some e3 \<and> muxed e3 = muxed e1))
   \<and> (session env width height fps_millis ops = Some e \<longrightarrow>
        count_trailers (muxed e) \<le> 1 \<and>
        (\<forall>e2. destroy e = Some e2 \<longrightarrow> count_trailers (muxed e2) = 1))"
proof (intro conjI impI allI)
  assume f: "finalize e = Some e1"
  from finalize_shape [OF f] have fin: "m_finalized e1" by auto
  then show f1: "finalize e1 = Some e1" by (simp add: finalize_def)
  from run_ops_finalized [OF f, of n] f
  show "run_ops (replicate (Suc n) Finalize) e = Some e1" by simp
  from finalize_shape [OF f]
  show "count_trailers (muxed e1) = count_trailers (muxed e) + (if m_finalized e then 0 else 1)"
    by (auto simp: count_trailers_def)
  from f fin show "\<exists>e2. destroy e = Some e2 \<and> muxed e2 = muxed e1 \<and> m_finalized e2"
    by (simp add: destroy_def)
  from f1 show "\<exists>e3. destroy e1 = Some e3 \<and> muxed e3 = muxed e1"
    by (simp add: destroy_def)
next
  assume s: "session env width height fps_millis ops = Some e"
  then obtain e0 where c: "VideoEncoder_ctor env width height fps_millis = Inr e0"
    and r: "run_ops ops e0 = Some e"
    by (auto simp: session_def split: sum.splits)
  from trailer_inv_run_ops [OF trailer_inv_ctor [OF c] r] have inv: "trailer_inv e" .
  then show "count_trailers (muxed e) \<le> 1" by (simp add: trailer_inv_def)
  fix e2 assume d: "destroy e = Some e2"
  then obtain e1 where f: "finalize e = Some e1" and m: "muxed e2 = muxed e1"
    by (auto simp: destroy_def split: option.splits)
  from f have "run_op Finalize e = Some e1" by simp
  from trailer_inv_run_op [OF inv this] have "trailer_inv e1" .
  moreover from finalize_shape [OF f] have "m_finalized e1" by auto
  ultimately show "count_trailers (muxed e2) = 1" using m by (simp add: trailer_inv_def)
qed

theorem finalize_idempotent_witness:
  "\<exists>e e1. session (ok_setup None [0, 0] [AVERROR_EAGAIN, 0, AVERROR_EOF] [True]) 64 48 25000
              [Encode 64 48] = Some e
        \<and> finalize e = Some e1
        \<and> finalize e1 = Some e1
        \<and> run_ops (replicate 3 Finalize) e = Some e1
        \<and> muxed e1 = [WroteHeader, WroteFrame, WroteTrailer]
        \<and> (\<exists>e2. destroy e = Some e2 \<and> muxed e2 = muxed e1 \<and> m_finalized e2)
        \<and> (\<exists>e3. destroy e1 = Some e3 \<and> muxed e3 = muxed e1)
        \<and> count_trailers (muxed e) \<le> 1"
proof -
  define e where "e = the (session (ok_setup None [0, 0] [AVERROR_EAGAIN, 0, AVERROR_EOF] [True])
                             64 48 25000 [Encode 64 48])"
  define e1 where "e1 = the (finalize e)"
  have s: "session (ok_setup None [0, 0] [AVERROR_EAGAIN, 0, AVERROR_EOF] [True]) 64 48 25000
             [Encode 64 48] = Some e"
    by (simp add: e_def eval_simps)
  have f: "finalize e = Some e1"
    by (simp add: e1_def e_def eval_simps)
  have m: "muxed e1 = [WroteHeader, WroteFrame, WroteTrailer]"
    by (simp add: e1_def e_def eval_simps)
  from finalize_idempotent [of e e1 2 "ok_setup None [0, 0] [AVERROR_EAGAIN, 0, AVERROR_EOF] [True]"
      64 48 25000 "[Encode 64 48]"] s f m
  show ?thesis by (auto simp: numeral_3_eq_3)
qed

lemma sorted_wrt_map_upt:
  assumes "\<And>i j. i < j \<Longrightarrow> j < k \<Longrightarrow> P (f i) (f j)"
  shows "sorted_wrt P (map f [0..<k])"
  using assms by (simp add: sorted_wrt_iff_nth_less)

text \<open>
  C4 (as amended). The presentation timestamp given to the n-th submitted frame of a
  session is the frame counter n rescaled from the encoder's time base
  \<open>1000 / lround(fps * 1000)\<close> into the stream's time base. With positive time bases and
  no overflow the assigned timestamps never decrease; they are strictly increasing when
  one tick of the stream's time base is no longer than one tick of the encoder's.
\<close>

theorem pts_rescaled_monotone:
  assumes "session env width height fps_millis ops = Some e"
  shows "codec_time_base e = \<lparr>num = 1000, den = fps_millis\<rparr>
       \<and> 0 \<le> m_pts e
       \<and> pts_log e = map (\<lambda>n. av_rescale_q (int n) (codec_time_base e) (stream_time_base e))
                         [0..<nat (m_pts e)]
       \<and> (0 < fps_millis \<and> 0 < num (stream_time_base e) \<and> 0 < den (stream_time_base e)
            \<and> m_pts e * (1000 * den (stream_time_base e)) \<le> INT64_MAX
          \<longrightarrow> sorted (pts_log e)
              \<and> (num (stream_time_base e) * fps_millis \<le> 1000 * den (stream_time_base e)
                   \<longrightarrow> sorted_wrt (<) (pts_log e)))"
proof -
  let ?ctb = "\<lparr>num = 1000, den = fps_millis\<rparr>"
  let ?stb = "case muxer_time_base env of None \<Rightarrow> ?ctb | Some q \<Rightarrow> q"
  from assms obtain e0 where c: "VideoEncoder_ctor env width height fps_millis = Inr e0"
    and r: "run_ops ops e0 = Some e"
    by (auto simp: session_def split: sum.splits)
  from pts_inv_run_ops [OF pts_inv_ctor [OF c] r] have inv: "pts_inv ?ctb ?stb e" .
  then have ctb: "codec_time_base e = ?ctb" and stb: "stream_time_base e = ?stb"
    and p: "0 \<le> m_pts e"
    and l: "pts_log e = map (\<lambda>n. av_rescale_q (int n) ?ctb ?stb) [0..<nat (m_pts e)]"
    by (simp_all add: pts_inv_def)
  have mono: "sorted (pts_log e) \<and>
       (num (stream_time_base e) * fps_millis \<le> 1000 * den (stream_time_base e)
          \<longrightarrow> sorted_wrt (<) (pts_log e))"
    if h: "0 < fps_millis \<and> 0 < num (stream_time_base e) \<and> 0 < den (stream_time_base e)
            \<and> m_pts e * (1000 * den (stream_time_base e)) \<le> INT64_MAX"
  proof -
    define b where "b = 1000 * den (stream_time_base e)"
    define c where "c = num (stream_time_base e) * fps_millis"
    have b0: "0 \<le> b" and c0: "0 < c" using h by (simp_all add: b_def c_def)
    have q: "av_rescale_q a ?ctb ?stb = av_rescale_rnd a b c" for a
      using stb by (simp add: av_rescale_q_def b_def c_def)
    have bound: "int j * b \<le> INT64_MAX" if "j < nat (m_pts e)" for j
    proof -
      have "int j \<le> m_pts e" using that by simp
      then have "int j * b \<le> m_pts e * b" using b0 by (rule mult_right_mono)
      moreover from h have "m_pts e * b \<le> INT64_MAX" by (simp add: b_def)
      ultimately show ?thesis by (rule order_trans)
    qed
    have "sorted_wrt (\<le>) (map (\<lambda>n. av_rescale_q (int n) ?ctb ?stb) [0..<nat (m_pts e)])"
    proof (rule sorted_wrt_map_upt)
      fix i j :: nat assume "i < j" and "j < nat (m_pts e)"
      then show "av_rescale_q (int i) ?ctb ?stb \<le> av_rescale_q (int j) ?ctb ?stb"
        unfolding q using b0 c0 bound [of j] by (intro rescale_mono) auto
    qed
    then have s: "sorted (pts_log e)" using l by simp
    have "sorted_wrt (<) (pts_log e)" if "c \<le> b"
    proof -
      have "sorted_wrt (<) (map (\<lambda>n. av_rescale_q (int n) ?ctb ?stb) [0..<nat (m_pts e)])"
      proof (rule sorted_wrt_map_upt)
        fix i j :: nat assume "i < j" and "j < nat (m_pts e)"
        then show "av_rescale_q (int i) ?ctb ?stb < av_rescale_q (int j) ?ctb ?stb"
          unfolding q using \<open>c \<le> b\<close> c0 bound [of j] by (intro rescale_strict_mono) auto
      qed
      then show ?thesis using l by simp
    qed
    with s show ?thesis by (simp add: b_def c_def)
  qed
  from ctb stb p l mono show ?thesis by simp
qed

theorem pts_rescaled_monotone_witness:
  "\<exists>e. session (ok_setup (Some \<lparr>num = 1, den = 90000\<rparr>) [0, 0, 0]
              [AVERROR_EAGAIN, AVERROR_EAGAIN, AVERROR_EAGAIN] [True]) 64 48 25000
              [Encode 64 48, Encode 64 48, Encode 64 48] = Some e
       \<and> pts_log e = [0, 3600, 7200]
       \<and> sorted (pts_log e) \<and> sorted_wrt (<) (pts_log e)"
proof -
  let ?env = "ok_setup (Some \<lparr>num = 1, den = 90000\<rparr>) [0, 0, 0]
                [AVERROR_EAGAIN, AVERROR_EAGAIN, AVERROR_EAGAIN] [True]"
  define e where "e = the (session ?env 64 48 25000 [Encode 64 48, Encode 64 48, Encode 64 48])"
  have s: "session ?env 64 48 25000 [Encode 64 48, Encode 64 48, Encode 64 48] = Some e"
    by (simp add: e_def eval_simps)
  have tb: "stream_time_base e = \<lparr>num = 1, den = 90000\<rparr>" and p: "m_pts e = 3"
    and l: "pts_log e = [0, 3600, 7200]"
    by (simp_all add: e_def eval_simps)
  have h: "0 < (25000::int) \<and> 0 < num (stream_time_base e) \<and> 0 < den (stream_time_base e)
            \<and> m_pts e * (1000 * den (stream_time_base e)) \<le> INT64_MAX"
    and h2: "num (stream_time_base e) * 25000 \<le> 1000 * den (stream_time_base e)"
    by (simp_all add: tb p INT64_MAX_def)
  from pts_rescaled_monotone [OF s] h h2
  have "sorted (pts_log e) \<and> sorted_wrt (<) (pts_log e)"
    by blast
  with s l show ?thesis by blast
qed

text \<open>
  C4 as stated fails: at 25 frames per second the encoder's tick is 1/25 s; when the
  muxer settles on a stream time base of 1/10 s, the first two frames both get
  timestamp 0.
\<close>

theorem pts_duplicate_counterexample:
  "map_option pts_log
     (session (ok_setup (Some \<lparr>num = 1, den = 10\<rparr>) [0, 0] [AVERROR_EAGAIN, AVERROR_EAGAIN] [True])
        64 48 25000 [Encode 64 48, Encode 64 48]) = Some [0, 0]"
  by (simp add: eval_simps)

text \<open>
  C10. Once the encoder is finalized and answers a submitted frame with end-of-stream,
  the internal \<open>encodeFrame\<close> returns without throwing; it writes nothing to the
  container, and the frame counter \<open>m_pts\<close> has gone up by one all the same. The public
  \<open>encodeFrame\<close> behaves alike when its scaling context is in place.
\<close>

theorem encodeFrame_after_flush:
  assumes "m_finalized e" and "send_frame_rets e = AVERROR_EOF # sends"
  shows "encodeFrame_av e =
           Some (Returned (),
                 e\<lparr>pts_log := pts_log e @ [av_rescale_q (m_pts e) (codec_time_base e) (stream_time_base e)],
                   m_pts := m_pts e + 1, send_frame_rets := sends\<rparr>)
       \<and> (m_sws_context e \<noteq> None \<and> width = m_frame_width e \<and> height = m_frame_height e \<longrightarrow>
            (\<exists>e'. encodeFrame width height e = Some (Returned (), e') \<and> muxed e' = muxed e
                  \<and> m_finalized e' \<and> m_pts e' = m_pts e + 1))"
proof -
  have ne: "AVERROR_EOF \<noteq> AVERROR_EAGAIN" by (simp add: AVERROR_EOF_def AVERROR_EAGAIN_def)
  have av: "encodeFrame_av x =
           Some (Returned (),
                 x\<lparr>pts_log := pts_log x @ [av_rescale_q (m_pts x) (codec_time_base x) (stream_time_base x)],
                   m_pts := m_pts x + 1, send_frame_rets := sends\<rparr>)"
    if "send_frame_rets x = AVERROR_EOF # sends" for x
    using that ne by (simp add: encodeFrame_av_def)
  have "\<exists>e'. encodeFrame width height e = Some (Returned (), e') \<and> muxed e' = muxed e
                  \<and> m_finalized e' \<and> m_pts e' = m_pts e + 1"
    if g: "m_sws_context e \<noteq> None \<and> width = m_frame_width e \<and> height = m_frame_height e"
  proof -
    from g obtain ctx where c: "m_sws_context e = Some ctx" by auto
    have "send_frame_rets (e\<lparr>scale_log := scale_log e @ [(ctx, width, height)]\<rparr>) = AVERROR_EOF # sends"
      using assms(2) by simp
    from av [OF this] g c assms(1) show ?thesis by (simp add: encodeFrame_def)
  qed
  with av [OF assms(2)] show ?thesis by blast
qed


theorem encodeFrame_after_flush_witness:
  "\<exists>e e'. session (ok_setup None [0, 0, AVERROR_EOF] [AVERROR_EAGAIN, AVERROR_EOF] [True]) 64 48 25000
              [Encode 64 48, Finalize] = Some e
        \<and> m_finalized e \<and> m_pts e = 1
        \<and> encodeFrame 64 48 e = Some (Returned (), e')
        \<and> muxed e' = muxed e \<and> m_finalized e' \<and> m_pts e' = 2"
proof -
  let ?env = "ok_setup None [0, 0, AVERROR_EOF] [AVERROR_EAGAIN, AVERROR_EOF] [True]"
  define e where "e = the (session ?env 64 48 25000 [Encode 64 48, Finalize])"
  have s: "session ?env 64 48 25000 [Encode 64 48, Finalize] = Some e"
    by (simp add: e_def eval_simps)
  have f: "m_finalized e" and r: "send_frame_rets e = AVERROR_EOF # []" and p: "m_pts e = 1"
    and g: "m_sws_context e \<noteq> None \<and> 64 = m_frame_width e \<and> 48 = m_frame_height e"
    by (simp_all add: e_def eval_simps)
  from encodeFrame_after_flush [OF f r, of 64 48] g p s f
  show ?thesis by auto
qed

text \<open>
  C1, at two failing inputs. First, the encoder for the container's codec is not found,
  after the format context was allocated and the output file opened: the constructor
  throws with both still acquired, the file handle open. Second, the frame cannot be
  allocated, after the header was written: the constructor throws with the format
  context, the codec context and the file handle still acquired, the file holding a
  header and no trailer.
\<close>

theorem encoder_ctor_leak:
  "VideoEncoder_ctor ((ok_setup None [] [] [])\<lparr>encoder_found := False\<rparr>) 64 48 25000
     = Inl \<lparr>message = ''Could not find encoder'', leaked = {FormatContext, IOHandle}, written = []\<rparr>
   \<and> VideoEncoder_ctor ((ok_setup None [] [] [])\<lparr>frame_alloc_ok := False\<rparr>) 64 48 25000
     = Inl \<lparr>message = ''Could not allocate video frame'',
            leaked = {FormatContext, IOHandle, CodecContext}, written = [WroteHeader]\<rparr>"
  by (auto simp: eval_simps)

text \<open>
  C2, at a failing input. The encoder is built for 64 x 48 output. A 100 x 100 frame
  creates the scaling context; the 64 x 48 frame that follows equals the output geometry,
  so the test finds nothing to rebuild and the frame is converted with the context of
  the 100 x 100 source. And two 100 x 100 frames in a row create the context twice,
  though the input geometry did not change.
\<close>

theorem stale_scaling_context:
  "map_option scale_log
     (session (ok_setup None [0, 0] [AVERROR_EAGAIN, AVERROR_EAGAIN] [True, True]) 64 48 25000
        [Encode 100 100, Encode 64 48])
   = Some [(\<lparr>srcW = 100, srcH = 100, srcFormat = AV_PIX_FMT_RGB24,
             dstW = 64, dstH = 48, dstFormat = AV_PIX_FMT_YUV420P\<rparr>, 100, 100),
           (\<lparr>srcW = 100, srcH = 100, srcFormat = AV_PIX_FMT_RGB24,
             dstW = 64, dstH = 48, dstFormat = AV_PIX_FMT_YUV420P\<rparr>, 64, 48)]
   \<and> map_option sws_getContext_rets
     (session (ok_setup None [0, 0] [AVERROR_EAGAIN, AVERROR_EAGAIN] [True, True]) 64 48 25000
        [Encode 100 100, Encode 100 100]) = Some []"
  by (simp add: eval_simps)

section \<open>Properties of the decoder\<close>





lemma same_stream_refl [simp]: "same_stream d d"
  by (simp add: same_stream_def)

lemma same_stream_trans: "same_stream a b \<Longrightarrow> same_stream b c \<Longrightarrow> same_stream a c"
  by (simp add: same_stream_def)

lemma same_stream_getStream: "same_stream d d' \<Longrightarrow> getStream d' = getStream d"
  by (simp add: same_stream_def getStream_def)

lemma read_packet_same:
  "read_packet d = Some (b, d1) \<Longrightarrow>
     same_stream d d1 \<and> m_frame d1 = m_frame d \<and> receive_frame_rets d1 = receive_frame_rets d
     \<and> (\<exists>cs. calls d1 = calls d @ Call_read_frame # cs)"
  by (auto simp: read_packet_def same_stream_def Let_def split: list.splits if_splits)

lemma pre_receive:
  assumes "(if \<not> h then read_packet d else Some (True, d)) = Some (b, d1)"
  shows "same_stream d d1 \<and> receive_frame_rets d1 = receive_frame_rets d
         \<and> (h \<longrightarrow> d1 = d \<and> b)
         \<and> (\<not> h \<longrightarrow> (\<exists>cs. calls d1 = calls d @ Call_read_frame # cs))"
  using assms by (cases h) (auto dest: read_packet_same)

lemma body_Again:
  assumes "getNextFrame_body h d = Some (Again d')"
  shows "same_stream d d' \<and> (\<exists>x. receive_frame_rets d = (AVERROR_EAGAIN, x) # receive_frame_rets d')"
proof -
  from assms obtain d1 where r: "(if \<not> h then read_packet d else Some (True, d)) = Some (True, d1)"
    and s: "same_stream d1 d' \<and> (\<exists>x. receive_frame_rets d1 = (AVERROR_EAGAIN, x) # receive_frame_rets d')"
    by (auto simp: getNextFrame_body_def same_stream_def Let_def
             split: option.splits bool.splits list.splits if_splits)
  from pre_receive [OF r] s show ?thesis by (auto intro: same_stream_trans)
qed

lemma body_Done_frame:
  assumes "getNextFrame_body h d = Some (Done (Some f) fl d')"
  shows "same_stream d d' \<and> fl \<and> m_frame d' = Some f
         \<and> (\<exists>ret. receive_frame_rets d = (ret, f) # receive_frame_rets d' \<and> 0 \<le> ret)"
proof -
  from assms obtain d1 where r: "(if \<not> h then read_packet d else Some (True, d)) = Some (True, d1)"
    and s: "same_stream d1 d' \<and> fl \<and> m_frame d' = Some f
         \<and> (\<exists>ret. receive_frame_rets d1 = (ret, f) # receive_frame_rets d' \<and> 0 \<le> ret)"
    by (auto simp: getNextFrame_body_def same_stream_def Let_def
             split: option.splits bool.splits list.splits if_splits)
  from pre_receive [OF r] s show ?thesis by (auto intro: same_stream_trans)
qed

lemma body_Done_None:
  assumes "getNextFrame_body h d = Some (Done None fl d')"
  shows "same_stream d d'"
proof -
  from assms obtain b d1 where r: "(if \<not> h then read_packet d else Some (True, d)) = Some (b, d1)"
    and s: "same_stream d1 d'"
    by (auto simp: getNextFrame_body_def same_stream_def Let_def
             split: option.splits bool.splits list.splits if_splits)
  from pre_receive [OF r] s show ?thesis by (auto intro: same_stream_trans)
qed

lemma getNextFrame_av_same:
  "getNextFrame_av h d = Some (res, fl, d') \<Longrightarrow> same_stream d d'"
proof (induction h d rule: getNextFrame_av.induct)
  case (1 h d)
  show ?case
  proof (cases "getNextFrame_body h d")
    case None
    with "1.prems" show ?thesis by (simp add: getNextFrame_av.simps)
  next
    case (Some step)
    show ?thesis
    proof (cases step)
      case (Again d1)
      with Some "1.prems" have "getNextFrame_av False d1 = Some (res, fl, d')"
        by (simp add: getNextFrame_av.simps)
      with "1.IH" Some Again have "same_stream d1 d'" by simp
      moreover from Some Again have "same_stream d d1" by (simp add: body_Again)
      ultimately show ?thesis by (rule same_stream_trans [rotated])
    next
      case (Done fr f2 d1)
      with Some "1.prems" have e: "fr = res" "f2 = fl" "d1 = d'"
        by (simp_all add: getNextFrame_av.simps)
      show ?thesis
      proof (cases res)
        case None
        with Some Done e show ?thesis by (auto dest: body_Done_None)
      next
        case (Some f)
        with \<open>getNextFrame_body h d = Some step\<close> Done e show ?thesis
          by (auto dest: body_Done_frame)
      qed
    qed
  qed
qed

lemma getNextFrame_av_delivers:
  "getNextFrame_av h d = Some (Some f, fl, d') \<Longrightarrow>
     fl \<and> m_frame d' = Some f
     \<and> (\<exists>pre ret. receive_frame_rets d = pre @ (ret, f) # receive_frame_rets d' \<and> 0 \<le> ret
           \<and> (\<forall>x\<in>set pre. fst x = AVERROR_EAGAIN))"
proof (induction h d rule: getNextFrame_av.induct)
  case (1 h d)
  show ?case
  proof (cases "getNextFrame_body h d")
    case None
    with "1.prems" show ?thesis by (simp add: getNextFrame_av.simps)
  next
    case (Some step)
    show ?thesis
    proof (cases step)
      case (Again d1)
      with Some "1.prems" have "getNextFrame_av False d1 = Some (Some f, fl, d')"
        by (simp add: getNextFrame_av.simps)
      with "1.IH" Some Again obtain pre ret where
        a: "fl \<and> m_frame d' = Some f" and
        b: "receive_frame_rets d1 = pre @ (ret, f) # receive_frame_rets d'" "0 \<le> ret"
           "\<forall>x\<in>set pre. fst x = AVERROR_EAGAIN"
        by blast
      from Some Again obtain x where
        "receive_frame_rets d = (AVERROR_EAGAIN, x) # receive_frame_rets d1"
        by (auto dest: body_Again)
      with b have "receive_frame_rets d = ((AVERROR_EAGAIN, x) # pre) @ (ret, f) # receive_frame_rets d'"
        and "\<forall>y\<in>set ((AVERROR_EAGAIN, x) # pre). fst y = AVERROR_EAGAIN"
        by simp_all
      with a b(2) show ?thesis by blast
    next
      case (Done fr f2 d1)
      with Some "1.prems" have e: "fr = Some f" "f2 = fl" "d1 = d'"
        by (simp_all add: getNextFrame_av.simps)
      with Some Done have "getNextFrame_body h d = Some (Done (Some f) fl d')" by simp
      from body_Done_frame [OF this] obtain ret where
        a: "fl \<and> m_frame d' = Some f" and
        b: "receive_frame_rets d = [] @ (ret, f) # receive_frame_rets d'" "0 \<le> ret"
        by auto
      have "\<forall>x\<in>set ([] :: (int \<times> AVFrame) list). fst x = AVERROR_EAGAIN" by simp
      with a b show ?thesis by blast
    qed
  qed
qed

lemma convert_shape:
  assumes "convertAVFrameToRGBBuffer f d = Some (r, d')"
  shows "m_format_context_streams d' = m_format_context_streams d
       \<and> m_video_stream_index d' = m_video_stream_index d \<and> m_frame d' = m_frame d
       \<and> pts_out d' = pts_out d
       \<and> ((r = Returned () \<and> rgb_buffer d' = Some f \<and> dec_sws_rets d = True # dec_sws_rets d')
          \<or> (r = Threw ''failed to create scaling context'' \<and> rgb_buffer d' = rgb_buffer d
              \<and> dec_sws_rets d = False # dec_sws_rets d'))"
  using assms
  by (auto simp: convertAVFrameToRGBBuffer_def Let_def split: list.splits if_splits)

lemmas dec_eval_simps = VideoDecoder_ctor_def ctor_throw_def release_def ok_dec_setup_def
  opened_decoder_def picture_def getStream_def getTotalDuration_def
  getBestEffortTimestampInMicroseconds_def read_packet_def getNextFrame_body_def
  convertAVFrameToRGBBuffer_def getNextFrame_def seekToTimestamp_def seek_then_next_def
  getNextFrame_on_def seekToTimestamp_on_def getNextFrame_av.simps seek_scan.simps
  av_rescale_q_def av_rescale_rnd_def av_rescale_near_def AV_TIME_BASE_Q_def AV_TIME_BASE_def
  AVERROR_EOF_def AVERROR_EAGAIN_def INT64_MAX_def INT64_MIN_def Let_def




text \<open>
  C6 as stated fails: the stream has pictures at 0, 40 and 80 ms and lasts 120 ms. A seek
  to 80 ms decodes up to the picture at 80 ms and answers true; that picture is the last
  one, so the next \<open>getNextFrame\<close> answers false and hands out no timestamp.
\<close>

theorem seek_then_next_counterexample:
  "seek_then_next 80000 False
     (opened_decoder [(0, 1), (0, 1), (0, 1), (AVERROR_EOF, 0)] [0, 0, 0, 0]
        [(0, picture 0), (AVERROR_EAGAIN, picture 0), (0, picture 3600), (AVERROR_EAGAIN, picture 0),
         (0, picture 7200), (AVERROR_EAGAIN, picture 0), (AVERROR_EOF, picture 0)] [0] [True])
   = Some (True, Returned False, None)"
  by (simp add: dec_eval_simps)

lemma getNextFrame_result:
  assumes a: "getNextFrame pts_given h d = Some (r, fl, d')"
  shows "(r = Returned False \<and> getNextFrame_av h d = Some (None, fl, d'))
      \<or> (\<exists>f d1. getNextFrame_av h d = Some (Some f, fl, d1) \<and> m_frame d' = Some f \<and>
            (r = Returned True \<and> rgb_buffer d' = Some f \<and> dec_sws_rets d = True # dec_sws_rets d'
               \<and> (pts_given \<longrightarrow>
                     pts_out d' = Some (getBestEffortTimestampInMicroseconds f (getStream d)))
             \<or> r = Threw ''failed to create scaling context'' \<and> rgb_buffer d' = rgb_buffer d
                 \<and> dec_sws_rets d = False # dec_sws_rets d'))"
proof -
  from a obtain res d1 where av: "getNextFrame_av h d = Some (res, fl, d1)"
    by (auto simp: getNextFrame_def split: option.splits outcome.splits)
  show ?thesis
  proof (cases res)
    case None
    with a av show ?thesis by (simp add: getNextFrame_def)
  next
    case (Some f)
    from getNextFrame_av_same [OF av] have same: "same_stream d d1" .
    from getNextFrame_av_delivers [OF av [unfolded Some]] have mf: "m_frame d1 = Some f" by simp
    from a av Some obtain c d2 where cv: "convertAVFrameToRGBBuffer f d1 = Some (c, d2)"
      by (auto simp: getNextFrame_def split: option.splits)
    note sh = convert_shape [OF cv]
    have gs: "getStream d2 = getStream d"
      using sh same by (simp add: getStream_def same_stream_def)
    from sh have "c = Returned () \<or> c = Threw ''failed to create scaling context''" by auto
    then show ?thesis
    proof
      assume c: "c = Returned ()"
      with a av Some cv have r: "r = Returned True"
        and d': "d' = (if pts_given
                     then d2\<lparr>pts_out := Some (getBestEffortTimestampInMicroseconds f (getStream d2))\<rparr>
                     else d2)"
        by (simp_all add: getNextFrame_def)
      from c sh have "rgb_buffer d2 = Some f" "dec_sws_rets d1 = True # dec_sws_rets d2"
        "m_frame d2 = m_frame d1" by auto
      with d' mf same gs have "m_frame d' = Some f" "rgb_buffer d' = Some f"
        "dec_sws_rets d = True # dec_sws_rets d'"
        "pts_given \<longrightarrow> pts_out d' = Some (getBestEffortTimestampInMicroseconds f (getStream d))"
        by (auto simp: same_stream_def)
      with r av Some show ?thesis by blast
    next
      assume c: "c = Threw ''failed to create scaling context''"
      with a av Some cv have r: "r = Threw ''failed to create scaling context''" and d': "d' = d2"
        by (simp_all add: getNextFrame_def)
      from c sh have "rgb_buffer d2 = rgb_buffer d1" "dec_sws_rets d1 = False # dec_sws_rets d2"
        "m_frame d2 = m_frame d1" by auto
      with d' mf same have "m_frame d' = Some f" "rgb_buffer d' = rgb_buffer d"
        "dec_sws_rets d = False # dec_sws_rets d'"
        by (auto simp: same_stream_def)
      with r av Some show ?thesis by blast
    qed
  qed
qed


lemma find_video_stream_none:
  "filter is_video ss = [] \<Longrightarrow> find_video_stream ss i idx = idx"
  by (induction ss arbitrary: i idx) (auto simp: is_video_def split: if_splits)

lemma find_video_stream_some:
  "filter is_video ss \<noteq> [] \<Longrightarrow>
     int i \<le> find_video_stream ss i idx
     \<and> ss ! nat (find_video_stream ss i idx - int i) = last (filter is_video ss)"
proof (induction ss arbitrary: i idx)
  case Nil
  then show ?case by simp
next
  case (Cons s ss)
  define idx' where "idx' = (if codec_type s = AVMEDIA_TYPE_VIDEO then int i else idx)"
  have step: "find_video_stream (s # ss) i idx = find_video_stream ss (Suc i) idx'"
    by (simp add: idx'_def)
  show ?case
  proof (cases "filter is_video ss = []")
    case True
    with Cons.prems have v: "is_video s" by (auto split: if_splits)
    then have "idx' = int i" by (simp add: idx'_def is_video_def)
    moreover from True have "find_video_stream ss (Suc i) idx' = idx'"
      by (rule find_video_stream_none)
    ultimately have r: "find_video_stream (s # ss) i idx = int i"
      by (simp only: step)
    show ?thesis unfolding r using True v by simp
  next
    case False
    from Cons.IH [OF False, of "Suc i" idx']
    have a: "int (Suc i) \<le> find_video_stream ss (Suc i) idx'"
      and b: "ss ! nat (find_video_stream ss (Suc i) idx' - int (Suc i)) = last (filter is_video ss)"
      by simp_all
    define r where "r = find_video_stream ss (Suc i) idx'"
    from a have "nat (r - int i) = Suc (nat (r - int (Suc i)))" by (simp add: r_def)
    with b have "(s # ss) ! nat (r - int i) = last (filter is_video ss)" by (simp add: r_def)
    with a False show ?thesis unfolding step r_def [symmetric] by simp
  qed
qed

text \<open>
  C8. Construction of a \<open>VideoDecoder\<close> fails exactly when the spec says so and with
  the kind the spec names (read off the message of the \<open>std::runtime_error\<close>), and
  whenever it fails nothing acquired is left behind; when it succeeds the object holds
  the format context, the codec context, the packet and the frame.
\<close>

theorem decoder_ctor_failures:
  "(case VideoDecoder_ctor env of
      Inl failure \<Rightarrow>
        spec_ctor_failure env = kind_of_message (message failure)
        \<and> kind_of_message (message failure) \<noteq> None
        \<and> leaked failure = {}
    | Inr d \<Rightarrow>
        spec_ctor_failure env = None
        \<and> dec_live d = {FormatContext, CodecContext, Packet, Frame})"
proof (cases "filter is_video (streams env) = []")
  case True
  then have "find_video_stream (streams env) 0 (- 1) = - 1"
    by (rule find_video_stream_none)
  with True show ?thesis
    by (simp add: VideoDecoder_ctor_def spec_ctor_failure_def kind_of_message_def
                  ctor_throw_def release_def Let_def)
next
  case False
  define idx where "idx = find_video_stream (streams env) 0 (- 1)"
  from find_video_stream_some [OF False, of 0 "- 1"]
  have a: "0 \<le> idx" and b: "streams env ! nat idx = last (filter is_video (streams env))"
    by (simp_all add: idx_def)
  from a have ne: "idx \<noteq> - 1" by simp
  show ?thesis
    using False ne b unfolding VideoDecoder_ctor_def Let_def idx_def [symmetric]
    by (simp add: spec_ctor_failure_def kind_of_message_def ctor_throw_def release_def
                  insert_commute)
qed

theorem decoder_ctor_failures_witness:
  "VideoDecoder_ctor ((ok_dec_setup [] [] [] [] [])\<lparr>dec_frame_alloc_ok := False\<rparr>)
     = Inl \<lparr>message = ''couldn't allocate m_frame'', leaked = {}, written = []\<rparr>
   \<and> spec_ctor_failure ((ok_dec_setup [] [] [] [] [])\<lparr>dec_frame_alloc_ok := False\<rparr>) = Some InitError
   \<and> kind_of_message ''couldn't allocate m_frame'' = Some InitError"
proof -
  let ?env = "(ok_dec_setup [] [] [] [] [])\<lparr>dec_frame_alloc_ok := False\<rparr>"
  have c: "VideoDecoder_ctor ?env
     = Inl \<lparr>message = ''couldn't allocate m_frame'', leaked = {}, written = []\<rparr>"
    by (auto simp: dec_eval_simps)
  have k: "kind_of_message ''couldn't allocate m_frame'' = Some InitError"
    by (simp add: kind_of_message_def)
  from decoder_ctor_failures [of ?env] c k show ?thesis by simp
qed

lemma body_calls:
  assumes "getNextFrame_body h d = Some step"
  shows "\<exists>cs. calls (case step of Again x \<Rightarrow> x | Done fr fl x \<Rightarrow> x)
              = calls d @ (if h then Call_receive_frame else Call_read_frame) # cs"
proof -
  from assms obtain b d1 where r: "(if \<not> h then read_packet d else Some (True, d)) = Some (b, d1)"
    by (auto simp: getNextFrame_body_def split: option.splits)
  from pre_receive [OF r] have d1: "h \<longrightarrow> d1 = d \<and> b"
    and c1: "\<not> h \<longrightarrow> (\<exists>cs. calls d1 = calls d @ Call_read_frame # cs)" by simp_all
  show ?thesis
  proof (cases b)
    case False
    with assms r have "step = Done None h d1"
      by (auto simp: getNextFrame_body_def split: if_splits)
    with False d1 c1 show ?thesis by auto
  next
    case True
    with assms r have "\<exists>cs. calls (case step of Again x \<Rightarrow> x | Done fr fl x \<Rightarrow> x)
                           = calls d1 @ Call_receive_frame # cs"
      by (auto simp: getNextFrame_body_def Let_def split: list.splits if_splits)
    then obtain cs where cs: "calls (case step of Again x \<Rightarrow> x | Done fr fl x \<Rightarrow> x)
                           = calls d1 @ Call_receive_frame # cs" ..
    show ?thesis
    proof (cases h)
      case True
      with d1 cs show ?thesis by auto
    next
      case False
      with c1 obtain cs1 where "calls d1 = calls d @ Call_read_frame # cs1" by auto
      with cs False show ?thesis by auto
    qed
  qed
qed

lemma av_first_call:
  "getNextFrame_av h d = Some (res, fl, d') \<Longrightarrow>
     \<exists>cs. calls d' = calls d @ (if h then Call_receive_frame else Call_read_frame) # cs"
proof (induction h d rule: getNextFrame_av.induct)
  case (1 h d)
  show ?case
  proof (cases "getNextFrame_body h d")
    case None
    with "1.prems" show ?thesis by (simp add: getNextFrame_av.simps)
  next
    case (Some step)
    from body_calls [OF Some] obtain cs where
      cs: "calls (case step of Again x \<Rightarrow> x | Done fr fl x \<Rightarrow> x)
             = calls d @ (if h then Call_receive_frame else Call_read_frame) # cs" ..
    show ?thesis
    proof (cases step)
      case (Again d1)
      with Some "1.prems" have "getNextFrame_av False d1 = Some (res, fl, d')"
        by (simp add: getNextFrame_av.simps)
      with "1.IH" Some Again obtain cs2 where "calls d' = calls d1 @ Call_read_frame # cs2"
        by auto
      with cs Again show ?thesis by auto
    next
      case (Done fr f2 d1)
      with Some "1.prems" have "d1 = d'" by (simp add: getNextFrame_av.simps)
      with cs Done show ?thesis by auto
    qed
  qed
qed

lemma seek_failed:
  assumes "seek_frame_rets d = ret # seeks" and "ret < 0"
  shows "\<exists>d'. seekToTimestamp t h d = Some (False, h, d')"
  using assms by (simp add: seekToTimestamp_def Let_def)

lemma seek_scan_first_call:
  assumes "seek_scan t h d = Some (reached, fl, d')"
  shows "\<exists>cs. calls d' = calls d @ (if h then Call_receive_frame else Call_read_frame) # cs"
  using assms
proof (induction t h d rule: seek_scan.induct)
  case (1 t h d)
  from "1.prems" obtain res f1 d1 where av: "getNextFrame_av h d = Some (res, f1, d1)"
    by (auto simp: seek_scan.simps split: option.splits)
  from av_first_call [OF av] obtain cs where
    cs: "calls d1 = calls d @ (if h then Call_receive_frame else Call_read_frame) # cs" ..
  show ?case
  proof (cases res)
    case None
    with "1.prems" av have "d' = d1" by (simp add: seek_scan.simps)
    with cs show ?thesis by auto
  next
    case (Some f)
    show ?thesis
    proof (cases "getBestEffortTimestampInMicroseconds f (getStream d1) \<ge> t")
      case True
      with "1.prems" av Some have "d' = d1" by (simp add: seek_scan.simps)
      with cs show ?thesis by auto
    next
      case False
      with "1.prems" av Some have "seek_scan t f1 d1 = Some (reached, fl, d')"
        by (simp add: seek_scan.simps)
      from "1.IH" [OF av refl Some refl False this] obtain cs2 where
        "calls d' = calls d1 @ (if f1 then Call_receive_frame else Call_read_frame) # cs2" ..
      with cs show ?thesis by auto
    qed
  qed
qed

lemma seek_first_call:
  assumes "seek_frame_rets d = ret # seeks" and "0 \<le> ret"
    and "seekToTimestamp t h d = Some (reached, fl, d')"
  shows "\<exists>ts cs. calls d' = calls d @ Call_flush_buffers # Call_seek_frame ts
                     # (if h then Call_receive_frame else Call_read_frame) # cs"
proof -
  define ts where "ts = av_rescale_q t AV_TIME_BASE_Q (time_base (getStream d))"
  define d2 where "d2 = d\<lparr>calls := calls d @ [Call_flush_buffers],
       seek_frame_rets := seeks, calls := (calls d @ [Call_flush_buffers]) @ [Call_seek_frame ts]\<rparr>"
  from assms have "seek_scan t h d2 = Some (reached, fl, d')"
    by (simp add: seekToTimestamp_def Let_def d2_def ts_def)
  from seek_scan_first_call [OF this] obtain cs where
    "calls d' = calls d2 @ (if h then Call_receive_frame else Call_read_frame) # cs" ..
  then have "calls d' = calls d @ Call_flush_buffers # Call_seek_frame ts
                     # (if h then Call_receive_frame else Call_read_frame) # cs"
    by (simp add: d2_def)
  then show ?thesis by blast
qed

text \<open>
  C9. The flag \<open>hasPendingFrames\<close> belongs to the process, not to a decoder. A picture
  delivered on decoder \<open>i\<close> leaves the flag set and every other decoder as it was;
  whichever decoder \<open>j\<close> is called next starts with \<open>avcodec_receive_frame\<close> when
  the flag is set and with \<open>av_read_frame\<close> when it is not. \<open>seekToTimestamp\<close> does
  not reset the flag: a failed seek returns it as it found it, and after a successful
  seek the decode loop starts on the flag's value from before the seek.
\<close>

theorem pending_flag_shared:
  "(getNextFrame_on i p = Some (Some f, p1) \<longrightarrow>
      hasPendingFrames p1
      \<and> (\<forall>j. j \<noteq> i \<longrightarrow> decoders p1 ! j = decoders p ! j))
   \<and> (getNextFrame_on j p1 = Some (r, p2) \<longrightarrow>
        (\<exists>cs. calls (decoders p2 ! j)
                = calls (decoders p1 ! j)
                  @ (if hasPendingFrames p1 then Call_receive_frame else Call_read_frame) # cs))
   \<and> (seek_frame_rets d = ret # seeks \<and> ret < 0 \<longrightarrow>
        (\<exists>d'. seekToTimestamp t h d = Some (False, h, d')))
   \<and> (seek_frame_rets d0 = ret0 # seeks0 \<and> 0 \<le> ret0
        \<and> seekToTimestamp t h0 d0 = Some (reached, fl, d1) \<longrightarrow>
        (\<exists>ts cs. calls d1 = calls d0 @ Call_flush_buffers # Call_seek_frame ts
                     # (if h0 then Call_receive_frame else Call_read_frame) # cs))"
proof (intro conjI impI allI)
  assume a: "getNextFrame_on i p = Some (Some f, p1)"
  then have i: "i < length (decoders p)"
    by (auto simp: getNextFrame_on_def split: if_splits)
  with a obtain fl d' where av: "getNextFrame_av (hasPendingFrames p) (decoders p ! i) = Some (Some f, fl, d')"
    and p1: "p1 = p\<lparr>hasPendingFrames := fl, decoders := (decoders p)[i := d']\<rparr>"
    by (auto simp: getNextFrame_on_def split: option.splits)
  from getNextFrame_av_delivers [OF av] p1 show "hasPendingFrames p1" by simp
  fix j assume "j \<noteq> i"
  with p1 show "decoders p1 ! j = decoders p ! j" by simp
next
  assume a: "getNextFrame_on j p1 = Some (r, p2)"
  then have j: "j < length (decoders p1)"
    by (auto simp: getNextFrame_on_def split: if_splits)
  with a obtain fl d' where av: "getNextFrame_av (hasPendingFrames p1) (decoders p1 ! j) = Some (r, fl, d')"
    and p2: "p2 = p1\<lparr>hasPendingFrames := fl, decoders := (decoders p1)[j := d']\<rparr>"
    by (auto simp: getNextFrame_on_def split: option.splits)
  from p2 j have "decoders p2 ! j = d'" by simp
  with av_first_call [OF av]
  show "\<exists>cs. calls (decoders p2 ! j)
                = calls (decoders p1 ! j)
                  @ (if hasPendingFrames p1 then Call_receive_frame else Call_read_frame) # cs"
    by simp
next
  assume "seek_frame_rets d = ret # seeks \<and> ret < 0"
  then show "\<exists>d'. seekToTimestamp t h d = Some (False, h, d')"
    by (auto intro: seek_failed)
next
  assume "seek_frame_rets d0 = ret0 # seeks0 \<and> 0 \<le> ret0
        \<and> seekToTimestamp t h0 d0 = Some (reached, fl, d1)"
  then have "seek_frame_rets d0 = ret0 # seeks0" and "0 \<le> ret0"
    and "seekToTimestamp t h0 d0 = Some (reached, fl, d1)" by simp_all
  then show "\<exists>ts cs. calls d1 = calls d0 @ Call_flush_buffers # Call_seek_frame ts
                     # (if h0 then Call_receive_frame else Call_read_frame) # cs"
    by (rule seek_first_call)
qed

lemma EAGAIN_negative: "AVERROR_EAGAIN < 0"
  by (simp add: AVERROR_EAGAIN_def)

lemma seek_scan_reaches:
  assumes "seek_scan t h d = Some (True, fl, d')"
  shows "same_stream d d' \<and> fl
       \<and> (\<exists>f pre ret. m_frame d' = Some f
             \<and> t \<le> getBestEffortTimestampInMicroseconds f (getStream d)
             \<and> receive_frame_rets d = pre @ (ret, f) # receive_frame_rets d' \<and> 0 \<le> ret
             \<and> (\<forall>x\<in>set pre. fst x = AVERROR_EAGAIN
                    \<or> (0 \<le> fst x \<and> getBestEffortTimestampInMicroseconds (snd x) (getStream d) < t)))"
  using assms
proof (induction t h d rule: seek_scan.induct)
  case (1 t h d)
  from "1.prems" obtain res f1 d1 where av: "getNextFrame_av h d = Some (res, f1, d1)"
    by (auto simp: seek_scan.simps split: option.splits)
  from getNextFrame_av_same [OF av] have same: "same_stream d d1" .
  then have gs: "getStream d1 = getStream d" by (rule same_stream_getStream)
  show ?case
  proof (cases res)
    case None
    with "1.prems" av show ?thesis by (simp add: seek_scan.simps)
  next
    case (Some f)
    from getNextFrame_av_delivers [OF av [unfolded Some]] obtain pre ret where
      f1: "f1" and mf: "m_frame d1 = Some f"
      and rc: "receive_frame_rets d = pre @ (ret, f) # receive_frame_rets d1" and ret: "0 \<le> ret"
      and pre: "\<forall>x\<in>set pre. fst x = AVERROR_EAGAIN"
      by blast
    show ?thesis
    proof (cases "getBestEffortTimestampInMicroseconds f (getStream d1) \<ge> t")
      case True
      with "1.prems" av Some have e: "d' = d1" "fl = f1" by (simp_all add: seek_scan.simps)
      from pre have "\<forall>x\<in>set pre. fst x = AVERROR_EAGAIN
                    \<or> (0 \<le> fst x \<and> getBestEffortTimestampInMicroseconds (snd x) (getStream d) < t)"
        by simp
      with e mf rc ret True gs
      have "\<exists>f pre ret. m_frame d' = Some f
             \<and> t \<le> getBestEffortTimestampInMicroseconds f (getStream d)
             \<and> receive_frame_rets d = pre @ (ret, f) # receive_frame_rets d' \<and> 0 \<le> ret
             \<and> (\<forall>x\<in>set pre. fst x = AVERROR_EAGAIN
                    \<or> (0 \<le> fst x \<and> getBestEffortTimestampInMicroseconds (snd x) (getStream d) < t))"
        by auto
      with e same f1 show ?thesis by simp
    next
      case False
      with "1.prems" av Some have "seek_scan t f1 d1 = Some (True, fl, d')"
        by (simp add: seek_scan.simps)
      from "1.IH" [OF av refl Some refl False this] obtain g pre2 ret2 where
        s2: "same_stream d1 d'" and fl: "fl" and mg: "m_frame d' = Some g"
        and tg: "t \<le> getBestEffortTimestampInMicroseconds g (getStream d1)"
        and rc2: "receive_frame_rets d1 = pre2 @ (ret2, g) # receive_frame_rets d'" and ret2: "0 \<le> ret2"
        and pre2: "\<forall>x\<in>set pre2. fst x = AVERROR_EAGAIN
                    \<or> (0 \<le> fst x \<and> getBestEffortTimestampInMicroseconds (snd x) (getStream d1) < t)"
        by blast
      from rc rc2 have rc3: "receive_frame_rets d = (pre @ (ret, f) # pre2) @ (ret2, g) # receive_frame_rets d'"
        by simp
      from pre pre2 ret False gs
      have pre3: "\<forall>x\<in>set (pre @ (ret, f) # pre2). fst x = AVERROR_EAGAIN
                    \<or> (0 \<le> fst x \<and> getBestEffortTimestampInMicroseconds (snd x) (getStream d) < t)"
        by auto
      from same s2 have s3: "same_stream d d'" by (rule same_stream_trans)
      from tg gs have tg': "t \<le> getBestEffortTimestampInMicroseconds g (getStream d)" by simp
      from mg tg' rc3 ret2 pre3
      have "\<exists>f pre ret. m_frame d' = Some f
             \<and> t \<le> getBestEffortTimestampInMicroseconds f (getStream d)
             \<and> receive_frame_rets d = pre @ (ret, f) # receive_frame_rets d' \<and> 0 \<le> ret
             \<and> (\<forall>x\<in>set pre. fst x = AVERROR_EAGAIN
                    \<or> (0 \<le> fst x \<and> getBestEffortTimestampInMicroseconds (snd x) (getStream d) < t))"
        by blast
      with s3 fl show ?thesis by simp
    qed
  qed
qed

lemma delivered_member:
  assumes "receive_frame_rets d = pre @ (ret, f) # post" and "0 \<le> ret"
  shows "getBestEffortTimestampInMicroseconds f (getStream d) \<in> set (delivered_timestamps d)"
  using assms by (auto simp: delivered_timestamps_def)

lemma delivered_split:
  assumes "receive_frame_rets d = pre @ (ret, f) # receive_frame_rets d'" and "0 \<le> ret"
    and "same_stream d d'"
  shows "\<exists>xs. delivered_timestamps d
           = xs @ getBestEffortTimestampInMicroseconds f (getStream d) # delivered_timestamps d'"
  using assms same_stream_getStream [OF assms(3)]
  by (simp add: delivered_timestamps_def)

lemma next_after_seek:
  assumes seek: "seek_scan t h d = Some (True, fl, d')"
    and sorted: "sorted (delivered_timestamps d)"
    and nxt: "getNextFrame_av fl d' = Some (Some f2, fl2, d2)"
  shows "t \<le> getBestEffortTimestampInMicroseconds f2 (getStream d)"
proof -
  from seek_scan_reaches [OF seek] obtain f pre ret where
    same: "same_stream d d'"
    and tf: "t \<le> getBestEffortTimestampInMicroseconds f (getStream d)"
    and rc: "receive_frame_rets d = pre @ (ret, f) # receive_frame_rets d'" and ret: "0 \<le> ret"
    by blast
  from delivered_split [OF rc ret same] obtain xs where
    xs: "delivered_timestamps d
           = xs @ getBestEffortTimestampInMicroseconds f (getStream d) # delivered_timestamps d'" ..
  from getNextFrame_av_delivers [OF nxt] obtain pre2 ret2 where
    "receive_frame_rets d' = pre2 @ (ret2, f2) # receive_frame_rets d2" and "0 \<le> ret2" by blast
  then have "getBestEffortTimestampInMicroseconds f2 (getStream d') \<in> set (delivered_timestamps d')"
    by (rule delivered_member)
  then have m: "getBestEffortTimestampInMicroseconds f2 (getStream d) \<in> set (delivered_timestamps d')"
    using same_stream_getStream [OF same] by simp
  from sorted xs have "\<forall>y\<in>set (delivered_timestamps d').
       getBestEffortTimestampInMicroseconds f (getStream d) \<le> y"
    by (simp add: sorted_append)
  with m tf show ?thesis by fastforce
qed

lemma read_packet_total:
  assumes "read_frame_rets d \<noteq> []" and "send_packet_rets d \<noteq> []"
  shows "\<exists>b d1. read_packet d = Some (b, d1)
           \<and> Suc (length (read_frame_rets d1)) = length (read_frame_rets d)
           \<and> length (send_packet_rets d) \<le> Suc (length (send_packet_rets d1))"
proof -
  from assms obtain ret i reads r sends where
    "read_frame_rets d = (ret, i) # reads" and "send_packet_rets d = r # sends"
    by (cases "read_frame_rets d"; cases "send_packet_rets d") auto
  then show ?thesis
    by (auto simp: read_packet_def Let_def)
qed

lemma pre_receive_total:
  assumes "read_frame_rets d \<noteq> []" and "send_packet_rets d \<noteq> []"
  shows "\<exists>b d1. (if \<not> h then read_packet d else Some (True, d)) = Some (b, d1)
           \<and> length (read_frame_rets d) \<le> Suc (length (read_frame_rets d1))
           \<and> length (send_packet_rets d) \<le> Suc (length (send_packet_rets d1))"
proof (cases h)
  case True
  then show ?thesis by auto
next
  case False
  from read_packet_total [OF assms] obtain b d1 where
    "read_packet d = Some (b, d1)"
    "Suc (length (read_frame_rets d1)) = length (read_frame_rets d)"
    "length (send_packet_rets d) \<le> Suc (length (send_packet_rets d1))" by blast
  with False show ?thesis by auto
qed

lemma av_progress:
  assumes "receive_frame_rets d = pre @ (e, x) # post"
    and "e < 0" and "e \<noteq> AVERROR_EAGAIN"
    and "\<forall>y\<in>set pre. fst y = AVERROR_EAGAIN \<or> 0 \<le> fst y"
    and "length pre < length (read_frame_rets d)"
    and "length pre < length (send_packet_rets d)"
  shows "\<exists>res fl d'. getNextFrame_av h d = Some (res, fl, d')
           \<and> (\<forall>f. res = Some f \<longrightarrow>
                 (\<exists>pre1 pre2 r. pre = pre1 @ (r, f) # pre2 \<and> 0 \<le> r
                     \<and> receive_frame_rets d' = pre2 @ (e, x) # post
                     \<and> length pre2 < length (read_frame_rets d')
                     \<and> length pre2 < length (send_packet_rets d')))"
  using assms
proof (induction pre arbitrary: h d)
  case Nil
  from Nil.prems have ne: "read_frame_rets d \<noteq> []" "send_packet_rets d \<noteq> []" by auto
  from pre_receive_total [OF ne, of h] obtain b d1 where
    r: "(if \<not> h then read_packet d else Some (True, d)) = Some (b, d1)" by blast
  from pre_receive [OF r] Nil.prems have rc: "receive_frame_rets d1 = (e, x) # post" by simp
  have "\<exists>fl d'. getNextFrame_body h d = Some (Done None fl d')"
  proof (cases b)
    case False
    with r show ?thesis by (simp add: getNextFrame_body_def)
  next
    case True
    with r rc Nil.prems(2,3) show ?thesis
      by (auto simp: getNextFrame_body_def Let_def)
  qed
  then obtain fl d' where "getNextFrame_body h d = Some (Done None fl d')" by blast
  then have "getNextFrame_av h d = Some (None, fl, d')" by (simp add: getNextFrame_av.simps)
  then show ?case by simp
next
  case (Cons y pre)
  obtain r0 f0 where y: "y = (r0, f0)" by (cases y)
  from Cons.prems have ne: "read_frame_rets d \<noteq> []" "send_packet_rets d \<noteq> []" by auto
  from pre_receive_total [OF ne, of h] obtain b d1 where
    r: "(if \<not> h then read_packet d else Some (True, d)) = Some (b, d1)"
    and lr: "length (read_frame_rets d) \<le> Suc (length (read_frame_rets d1))"
    and ls: "length (send_packet_rets d) \<le> Suc (length (send_packet_rets d1))" by blast
  from pre_receive [OF r] Cons.prems y
  have rc: "receive_frame_rets d1 = (r0, f0) # pre @ (e, x) # post" by simp
  from Cons.prems(5) lr have lr1: "length pre < length (read_frame_rets d1)" by simp
  from Cons.prems(6) ls have ls1: "length pre < length (send_packet_rets d1)" by simp
  show ?case
  proof (cases b)
    case False
    with r have "getNextFrame_body h d = Some (Done None h d1)"
      by (simp add: getNextFrame_body_def)
    then have "getNextFrame_av h d = Some (None, h, d1)" by (simp add: getNextFrame_av.simps)
    then show ?thesis by simp
  next
    case True
    define d2 where "d2 = d1\<lparr>receive_frame_rets := pre @ (e, x) # post,
                              calls := calls d1 @ [Call_receive_frame]\<rparr>"
    from Cons.prems(4) y have "r0 = AVERROR_EAGAIN \<or> 0 \<le> r0" by simp
    then show ?thesis
    proof
      assume ea: "r0 = AVERROR_EAGAIN"
      with True r rc have "getNextFrame_body h d = Some (Again (d2\<lparr>m_frame := None\<rparr>))"
        by (simp add: getNextFrame_body_def Let_def d2_def)
      then have av: "getNextFrame_av h d = getNextFrame_av False (d2\<lparr>m_frame := None\<rparr>)"
        by (simp add: getNextFrame_av.simps)
      have "\<exists>res fl d'. getNextFrame_av False (d2\<lparr>m_frame := None\<rparr>) = Some (res, fl, d')
           \<and> (\<forall>f. res = Some f \<longrightarrow>
                 (\<exists>pre1 pre2 r. pre = pre1 @ (r, f) # pre2 \<and> 0 \<le> r
                     \<and> receive_frame_rets d' = pre2 @ (e, x) # post
                     \<and> length pre2 < length (read_frame_rets d')
                     \<and> length pre2 < length (send_packet_rets d')))"
        using Cons.prems(2,3,4) lr1 ls1
        by (intro Cons.IH) (simp_all add: d2_def)
      then obtain res fl d' where
        g: "getNextFrame_av False (d2\<lparr>m_frame := None\<rparr>) = Some (res, fl, d')"
        and i: "\<forall>f. res = Some f \<longrightarrow>
                 (\<exists>pre1 pre2 r. pre = pre1 @ (r, f) # pre2 \<and> 0 \<le> r
                     \<and> receive_frame_rets d' = pre2 @ (e, x) # post
                     \<and> length pre2 < length (read_frame_rets d')
                     \<and> length pre2 < length (send_packet_rets d'))"
        by blast
      have "\<forall>f. res = Some f \<longrightarrow>
                 (\<exists>pre1 pre2 r. y # pre = pre1 @ (r, f) # pre2 \<and> 0 \<le> r
                     \<and> receive_frame_rets d' = pre2 @ (e, x) # post
                     \<and> length pre2 < length (read_frame_rets d')
                     \<and> length pre2 < length (send_packet_rets d'))"
      proof (intro allI impI)
        fix f assume "res = Some f"
        with i obtain pre1 pre2 r where "pre = pre1 @ (r, f) # pre2" and rest: "0 \<le> r"
          "receive_frame_rets d' = pre2 @ (e, x) # post"
          "length pre2 < length (read_frame_rets d')"
          "length pre2 < length (send_packet_rets d')" by blast
        then have "y # pre = (y # pre1) @ (r, f) # pre2" by simp
        with rest show "\<exists>pre1 pre2 r. y # pre = pre1 @ (r, f) # pre2 \<and> 0 \<le> r
                     \<and> receive_frame_rets d' = pre2 @ (e, x) # post
                     \<and> length pre2 < length (read_frame_rets d')
                     \<and> length pre2 < length (send_packet_rets d')" by blast
      qed
      with av g show ?thesis by auto
    next
      assume nn: "0 \<le> r0"
      then have "r0 \<noteq> AVERROR_EAGAIN" "r0 \<noteq> AVERROR_EOF" "\<not> r0 < 0"
        by (simp_all add: AVERROR_EAGAIN_def AVERROR_EOF_def)
      with True r rc have "getNextFrame_body h d = Some (Done (Some f0) True (d2\<lparr>m_frame := Some f0\<rparr>))"
        by (simp add: getNextFrame_body_def Let_def d2_def)
      then have av: "getNextFrame_av h d = Some (Some f0, True, d2\<lparr>m_frame := Some f0\<rparr>)"
        by (simp add: getNextFrame_av.simps)
      have "y # pre = [] @ (r0, f0) # pre" using y by simp
      moreover have "receive_frame_rets (d2\<lparr>m_frame := Some f0\<rparr>) = pre @ (e, x) # post"
        "length pre < length (read_frame_rets (d2\<lparr>m_frame := Some f0\<rparr>))"
        "length pre < length (send_packet_rets (d2\<lparr>m_frame := Some f0\<rparr>))"
        using lr1 ls1 by (simp_all add: d2_def)
      ultimately have "\<exists>pre1 pre2 r. y # pre = pre1 @ (r, f0) # pre2 \<and> 0 \<le> r
                     \<and> receive_frame_rets (d2\<lparr>m_frame := Some f0\<rparr>) = pre2 @ (e, x) # post
                     \<and> length pre2 < length (read_frame_rets (d2\<lparr>m_frame := Some f0\<rparr>))
                     \<and> length pre2 < length (send_packet_rets (d2\<lparr>m_frame := Some f0\<rparr>))"
        using nn by blast
      with av show ?thesis by auto
    qed
  qed
qed

lemma seek_scan_end_of_stream:
  assumes "receive_frame_rets d = pre @ (e, x) # post"
    and "e < 0" and "e \<noteq> AVERROR_EAGAIN"
    and "\<forall>y\<in>set pre. fst y = AVERROR_EAGAIN
           \<or> (0 \<le> fst y \<and> getBestEffortTimestampInMicroseconds (snd y) (getStream d) < t)"
    and "length pre < length (read_frame_rets d)"
    and "length pre < length (send_packet_rets d)"
  shows "\<exists>fl d'. seek_scan t h d = Some (False, fl, d')"
  using assms
proof (induction "length pre" arbitrary: pre h d rule: less_induct)
  case less
  from less.prems(4) have w: "\<forall>y\<in>set pre. fst y = AVERROR_EAGAIN \<or> 0 \<le> fst y" by auto
  from av_progress [OF less.prems(1,2,3) w less.prems(5,6), of h] obtain res fl d' where
    av: "getNextFrame_av h d = Some (res, fl, d')"
    and i: "\<forall>f. res = Some f \<longrightarrow>
                 (\<exists>pre1 pre2 r. pre = pre1 @ (r, f) # pre2 \<and> 0 \<le> r
                     \<and> receive_frame_rets d' = pre2 @ (e, x) # post
                     \<and> length pre2 < length (read_frame_rets d')
                     \<and> length pre2 < length (send_packet_rets d'))"
    by blast
  from getNextFrame_av_same [OF av] have gs: "getStream d' = getStream d"
    by (rule same_stream_getStream)
  show ?case
  proof (cases res)
    case None
    with av show ?thesis by (simp add: seek_scan.simps)
  next
    case (Some f)
    with i obtain pre1 pre2 r where p: "pre = pre1 @ (r, f) # pre2" and r: "0 \<le> r"
      and rc: "receive_frame_rets d' = pre2 @ (e, x) # post"
      and l1: "length pre2 < length (read_frame_rets d')"
      and l2: "length pre2 < length (send_packet_rets d')" by blast
    from p less.prems(4) have "fst (r, f) = AVERROR_EAGAIN
           \<or> (0 \<le> fst (r, f) \<and> getBestEffortTimestampInMicroseconds (snd (r, f)) (getStream d) < t)"
      by auto
    with r have early: "getBestEffortTimestampInMicroseconds f (getStream d) < t"
      by (auto simp: AVERROR_EAGAIN_def)
    from p have shorter: "length pre2 < length pre" by simp
    from p less.prems(4) gs have w2: "\<forall>y\<in>set pre2. fst y = AVERROR_EAGAIN
           \<or> (0 \<le> fst y \<and> getBestEffortTimestampInMicroseconds (snd y) (getStream d') < t)"
      by auto
    from less.hyps [OF shorter rc less.prems(2,3) w2 l1 l2, of fl] obtain fl2 d2 where
      "seek_scan t fl d' = Some (False, fl2, d2)" by blast
    with av Some early gs show ?thesis by (simp add: seek_scan.simps)
  qed
qed

lemma seek_unfold:
  assumes "seek_frame_rets d = ret # seeks" and "0 \<le> ret"
  shows "\<exists>d2. seekToTimestamp t h d = seek_scan t h d2
           \<and> receive_frame_rets d2 = receive_frame_rets d
           \<and> read_frame_rets d2 = read_frame_rets d
           \<and> send_packet_rets d2 = send_packet_rets d
           \<and> getStream d2 = getStream d
           \<and> delivered_timestamps d2 = delivered_timestamps d"
proof -
  define d2 where "d2 = d\<lparr>calls := calls d @ [Call_flush_buffers], seek_frame_rets := seeks,
       calls := (calls d @ [Call_flush_buffers])
                @ [Call_seek_frame (av_rescale_q t AV_TIME_BASE_Q (time_base (getStream d)))]\<rparr>"
  from assms have "seekToTimestamp t h d = seek_scan t h d2"
    by (simp add: seekToTimestamp_def Let_def d2_def)
  moreover have "receive_frame_rets d2 = receive_frame_rets d"
    "read_frame_rets d2 = read_frame_rets d" "send_packet_rets d2 = send_packet_rets d"
    "getStream d2 = getStream d" "delivered_timestamps d2 = delivered_timestamps d"
    by (simp_all add: d2_def getStream_def delivered_timestamps_def)
  ultimately show ?thesis by blast
qed

lemma seek_true_unfold:
  assumes "seekToTimestamp t h d = Some (True, fl, d')"
  shows "\<exists>d2. seek_scan t h d2 = Some (True, fl, d')
           \<and> getStream d2 = getStream d
           \<and> delivered_timestamps d2 = delivered_timestamps d"
proof -
  from assms obtain ret seeks where s: "seek_frame_rets d = ret # seeks"
    by (cases "seek_frame_rets d") (auto simp: seekToTimestamp_def Let_def)
  with assms have "0 \<le> ret"
    by (auto simp: seekToTimestamp_def Let_def split: if_splits)
  from seek_unfold [OF s this, of t h] assms show ?thesis by auto
qed

lemma seek_reached_frame:
  assumes "seekToTimestamp t h d = Some (True, fl, d')"
  shows "\<exists>f. m_frame d' = Some f \<and> t \<le> getBestEffortTimestampInMicroseconds f (getStream d)"
proof -
  from seek_true_unfold [OF assms] obtain d2 where
    s: "seek_scan t h d2 = Some (True, fl, d')" and gs: "getStream d2 = getStream d" by blast
  from seek_scan_reaches [OF s] gs show ?thesis by auto
qed

lemma seek_next_frame:
  assumes seek: "seekToTimestamp t h d = Some (True, fl, d')"
    and sorted: "sorted (delivered_timestamps d)"
    and nxt: "getNextFrame True fl d' = Some (Returned True, fl2, d3)"
  shows "\<exists>ts. pts_out d3 = Some ts \<and> t \<le> ts"
proof -
  from seek_true_unfold [OF seek] obtain d2 where
    s: "seek_scan t h d2 = Some (True, fl, d')" and gs: "getStream d2 = getStream d"
    and dl: "delivered_timestamps d2 = delivered_timestamps d" by blast
  from seek_scan_reaches [OF s] have "same_stream d2 d'" by simp
  then have gs': "getStream d' = getStream d" using gs by (simp add: same_stream_getStream)
  from getNextFrame_result [OF nxt] obtain f2 d4 where
    av: "getNextFrame_av fl d' = Some (Some f2, fl2, d4)"
    and p: "pts_out d3 = Some (getBestEffortTimestampInMicroseconds f2 (getStream d'))"
    by auto
  from sorted dl have "sorted (delivered_timestamps d2)" by simp
  from next_after_seek [OF s this av] gs gs' p show ?thesis by simp
qed

lemma seek_end_of_stream:
  assumes "seek_frame_rets d = ret # seeks" and "0 \<le> ret"
    and "receive_frame_rets d = pre @ (e, x) # post"
    and "e < 0" and "e \<noteq> AVERROR_EAGAIN"
    and "\<forall>y\<in>set pre. fst y = AVERROR_EAGAIN
           \<or> (0 \<le> fst y \<and> getBestEffortTimestampInMicroseconds (snd y) (getStream d) < t)"
    and "length pre < length (read_frame_rets d)"
    and "length pre < length (send_packet_rets d)"
  shows "\<exists>fl d'. seekToTimestamp t h d = Some (False, fl, d')"
proof -
  from seek_unfold [OF assms(1,2), of t h] obtain d2 where
    u: "seekToTimestamp t h d = seek_scan t h d2"
    and e: "receive_frame_rets d2 = receive_frame_rets d" "read_frame_rets d2 = read_frame_rets d"
       "send_packet_rets d2 = send_packet_rets d" "getStream d2 = getStream d" by blast
  from assms(3-8) e have "\<exists>fl d'. seek_scan t h d2 = Some (False, fl, d')"
    by (intro seek_scan_end_of_stream [of d2 pre e x post t h]) simp_all
  with u show ?thesis by simp
qed

text \<open>
  C6 (as amended). When \<open>seekToTimestamp t\<close> answers true, the picture it decoded last,
  held in the decoder's frame, has a normalized timestamp of at least \<open>t\<close>; the
  next \<open>getNextFrame\<close> delivers the picture after that one, and when it delivers one
  and the decoder hands out pictures in non-decreasing timestamp order, its timestamp
  is at least \<open>t\<close> too. \<open>seekToTimestamp\<close> answers false when the backward seek fails,
  and when decoding comes to the end of the stream (or to an error) before any picture's
  timestamp reaches \<open>t\<close>.
\<close>

theorem seek_reaches_target:
  "(seekToTimestamp t h d = Some (True, fl, d') \<longrightarrow>
      (\<exists>f. m_frame d' = Some f \<and> t \<le> getBestEffortTimestampInMicroseconds f (getStream d))
      \<and> (sorted (delivered_timestamps d) \<and> getNextFrame True fl d' = Some (Returned True, fl2, d2)
           \<longrightarrow> (\<exists>ts. pts_out d2 = Some ts \<and> t \<le> ts)))
   \<and> (seek_frame_rets d0 = ret0 # seeks0 \<and> ret0 < 0 \<longrightarrow>
        (\<exists>d1. seekToTimestamp t0 h0 d0 = Some (False, h0, d1)))
   \<and> (seek_frame_rets d3 = ret3 # seeks3 \<and> 0 \<le> ret3
        \<and> receive_frame_rets d3 = pre @ (e, x) # post \<and> e < 0 \<and> e \<noteq> AVERROR_EAGAIN
        \<and> (\<forall>y\<in>set pre. fst y = AVERROR_EAGAIN
              \<or> (0 \<le> fst y \<and> getBestEffortTimestampInMicroseconds (snd y) (getStream d3) < t3))
        \<and> length pre < length (read_frame_rets d3)
        \<and> length pre < length (send_packet_rets d3) \<longrightarrow>
        (\<exists>fl3 d4. seekToTimestamp t3 h3 d3 = Some (False, fl3, d4)))"
proof (intro conjI impI)
  assume s: "seekToTimestamp t h d = Some (True, fl, d')"
  then show "\<exists>f. m_frame d' = Some f \<and> t \<le> getBestEffortTimestampInMicroseconds f (getStream d)"
    by (rule seek_reached_frame)
  assume "sorted (delivered_timestamps d) \<and> getNextFrame True fl d' = Some (Returned True, fl2, d2)"
  then have "sorted (delivered_timestamps d)"
    and "getNextFrame True fl d' = Some (Returned True, fl2, d2)" by simp_all
  with s show "\<exists>ts. pts_out d2 = Some ts \<and> t \<le> ts" by (rule seek_next_frame)
next
  assume "seek_frame_rets d0 = ret0 # seeks0 \<and> ret0 < 0"
  then have "seek_frame_rets d0 = ret0 # seeks0" and "ret0 < 0" by simp_all
  then show "\<exists>d1. seekToTimestamp t0 h0 d0 = Some (False, h0, d1)" by (rule seek_failed)
next
  assume a: "seek_frame_rets d3 = ret3 # seeks3 \<and> 0 \<le> ret3
        \<and> receive_frame_rets d3 = pre @ (e, x) # post \<and> e < 0 \<and> e \<noteq> AVERROR_EAGAIN
        \<and> (\<forall>y\<in>set pre. fst y = AVERROR_EAGAIN
              \<or> (0 \<le> fst y \<and> getBestEffortTimestampInMicroseconds (snd y) (getStream d3) < t3))
        \<and> length pre < length (read_frame_rets d3)
        \<and> length pre < length (send_packet_rets d3)"
  then have "seek_frame_rets d3 = ret3 # seeks3" "0 \<le> ret3"
    "receive_frame_rets d3 = pre @ (e, x) # post" "e < 0" "e \<noteq> AVERROR_EAGAIN"
    "\<forall>y\<in>set pre. fst y = AVERROR_EAGAIN
              \<or> (0 \<le> fst y \<and> getBestEffortTimestampInMicroseconds (snd y) (getStream d3) < t3)"
    "length pre < length (read_frame_rets d3)" "length pre < length (send_packet_rets d3)"
    by simp_all
  then show "\<exists>fl3 d4. seekToTimestamp t3 h3 d3 = Some (False, fl3, d4)"
    by (rule seek_end_of_stream)
qed

lemmas scenario_simps = three_pictures_def two_decoders_def delivered_timestamps_def

theorem seek_reaches_target_witness:
  "\<exists>fl d' fl2 d2.
      seekToTimestamp 40000 False three_pictures = Some (True, fl, d')
      \<and> m_frame d' = Some (picture 3600)
      \<and> sorted (delivered_timestamps three_pictures)
      \<and> getNextFrame True fl d' = Some (Returned True, fl2, d2)
      \<and> pts_out d2 = Some 80000
      \<and> (\<exists>d1. seekToTimestamp 40000 True (three_pictures\<lparr>seek_frame_rets := [- 1]\<rparr>)
                 = Some (False, True, d1))
      \<and> (\<exists>fl3 d4. seekToTimestamp 200000 False three_pictures = Some (False, fl3, d4))"
proof -
  define r where "r = the (seekToTimestamp 40000 False three_pictures)"
  define fl where "fl = fst (snd r)"
  define d' where "d' = snd (snd r)"
  define r2 where "r2 = the (getNextFrame True fl d')"
  define fl2 where "fl2 = fst (snd r2)"
  define d2 where "d2 = snd (snd r2)"
  have s: "seekToTimestamp 40000 False three_pictures = Some (True, fl, d')"
    by (simp add: fl_def d'_def r_def scenario_simps dec_eval_simps)
  have mf: "m_frame d' = Some (picture 3600)"
    by (simp add: fl_def d'_def r_def scenario_simps dec_eval_simps)
  have n: "getNextFrame True fl d' = Some (Returned True, fl2, d2)"
    by (simp add: fl2_def d2_def r2_def fl_def d'_def r_def scenario_simps dec_eval_simps)
  have p: "pts_out d2 = Some 80000"
    by (simp add: fl2_def d2_def r2_def fl_def d'_def r_def scenario_simps dec_eval_simps)
  have so: "sorted (delivered_timestamps three_pictures)"
    by (simp add: scenario_simps dec_eval_simps)
  have f: "seek_frame_rets (three_pictures\<lparr>seek_frame_rets := [- 1]\<rparr>) = - 1 # [] \<and> (- 1 :: int) < 0"
    by simp
  have e: "seek_frame_rets three_pictures = 0 # [] \<and> (0::int) \<le> 0
        \<and> receive_frame_rets three_pictures
            = [(0, picture 0), (AVERROR_EAGAIN, picture 0), (0, picture 3600),
               (AVERROR_EAGAIN, picture 0), (0, picture 7200), (AVERROR_EAGAIN, picture 0)]
              @ (AVERROR_EOF, picture 0) # []
        \<and> AVERROR_EOF < 0 \<and> AVERROR_EOF \<noteq> AVERROR_EAGAIN
        \<and> (\<forall>y\<in>set [(0, picture 0), (AVERROR_EAGAIN, picture 0), (0, picture 3600),
               (AVERROR_EAGAIN, picture 0), (0, picture 7200), (AVERROR_EAGAIN, picture 0)].
              fst y = AVERROR_EAGAIN
              \<or> (0 \<le> fst y \<and> getBestEffortTimestampInMicroseconds (snd y) (getStream three_pictures) < 200000))
        \<and> length [(0, picture 0), (AVERROR_EAGAIN, picture 0), (0, picture 3600),
               (AVERROR_EAGAIN, picture 0), (0, picture 7200), (AVERROR_EAGAIN, picture 0)]
            < length (read_frame_rets three_pictures)
        \<and> length [(0, picture 0), (AVERROR_EAGAIN, picture 0), (0, picture 3600),
               (AVERROR_EAGAIN, picture 0), (0, picture 7200), (AVERROR_EAGAIN, picture 0)]
            < length (send_packet_rets three_pictures)"
    by (simp add: scenario_simps dec_eval_simps)
  from seek_reaches_target [where t = 40000 and h = False and d = three_pictures and fl = fl
      and d' = d' and ?fl2.0 = fl2 and ?d2.0 = d2
      and ?d0.0 = "three_pictures\<lparr>seek_frame_rets := [- 1]\<rparr>" and ?ret0.0 = "- 1" and ?seeks0.0 = "[]"
      and ?t0.0 = 40000 and ?h0.0 = True
      and ?d3.0 = three_pictures and ?ret3.0 = 0 and ?seeks3.0 = "[]"
      and pre = "[(0, picture 0), (AVERROR_EAGAIN, picture 0), (0, picture 3600),
               (AVERROR_EAGAIN, picture 0), (0, picture 7200), (AVERROR_EAGAIN, picture 0)]"
      and e = AVERROR_EOF and x = "picture 0" and post = "[]" and ?t3.0 = 200000 and ?h3.0 = False]
    s so n f e
  have "(\<exists>d1. seekToTimestamp 40000 True (three_pictures\<lparr>seek_frame_rets := [- 1]\<rparr>)
                 = Some (False, True, d1))
      \<and> (\<exists>fl3 d4. seekToTimestamp 200000 False three_pictures = Some (False, fl3, d4))"
    by blast
  with s mf so n p show ?thesis by blast
qed

theorem pending_flag_shared_witness:
  "\<exists>p1 p2 p3.
      getNextFrame_on 0 two_decoders = Some (Some (picture 0), p1)
      \<and> hasPendingFrames p1
      \<and> getNextFrame_on 1 p1 = Some (Some (picture 3600), p2)
      \<and> calls (decoders p2 ! 1)
          = [Call_receive_frame, Call_read_frame, Call_send_packet, Call_receive_frame]
      \<and> getNextFrame_on 1 two_decoders = Some (Some (picture 3600), p3)
      \<and> calls (decoders p3 ! 1)
          = [Call_read_frame, Call_send_packet, Call_receive_frame,
             Call_read_frame, Call_send_packet, Call_receive_frame]
      \<and> (\<exists>d1. seekToTimestamp 40000 True (three_pictures\<lparr>seek_frame_rets := [- 1]\<rparr>)
                 = Some (False, True, d1))
      \<and> (\<exists>reached fl d1 ts cs. seekToTimestamp 40000 True three_pictures = Some (reached, fl, d1)
             \<and> calls d1 = Call_flush_buffers # Call_seek_frame ts # Call_receive_frame # cs)"
proof -
  define p1 where "p1 = snd (the (getNextFrame_on 0 two_decoders))"
  define p2 where "p2 = snd (the (getNextFrame_on 1 p1))"
  define p3 where "p3 = snd (the (getNextFrame_on 1 two_decoders))"
  define r where "r = the (seekToTimestamp 40000 True three_pictures)"
  have a: "getNextFrame_on 0 two_decoders = Some (Some (picture 0), p1)"
    by (simp add: p1_def scenario_simps dec_eval_simps)
  have b: "getNextFrame_on 1 p1 = Some (Some (picture 3600), p2)"
    by (simp add: p2_def p1_def scenario_simps dec_eval_simps)
  have c2: "calls (decoders p2 ! 1)
          = [Call_receive_frame, Call_read_frame, Call_send_packet, Call_receive_frame]"
    by (simp add: p2_def p1_def scenario_simps dec_eval_simps)
  have c: "getNextFrame_on 1 two_decoders = Some (Some (picture 3600), p3)"
    by (simp add: p3_def scenario_simps dec_eval_simps)
  have c3: "calls (decoders p3 ! 1)
          = [Call_read_frame, Call_send_packet, Call_receive_frame,
             Call_read_frame, Call_send_packet, Call_receive_frame]"
    by (simp add: p3_def scenario_simps dec_eval_simps)
  have f: "seek_frame_rets (three_pictures\<lparr>seek_frame_rets := [- 1]\<rparr>) = - 1 # [] \<and> (- 1 :: int) < 0"
    by simp
  have g: "seek_frame_rets three_pictures = 0 # [] \<and> (0::int) \<le> 0
        \<and> seekToTimestamp 40000 True three_pictures = Some (fst r, fst (snd r), snd (snd r))"
    by (simp add: r_def scenario_simps dec_eval_simps)
  have cl: "calls three_pictures = []" by (simp add: scenario_simps dec_eval_simps)
  from pending_flag_shared [where i = 0 and p = two_decoders and f = "picture 0" and ?p1.0 = p1
      and j = 1 and r = "Some (picture 3600)" and ?p2.0 = p2
      and d = "three_pictures\<lparr>seek_frame_rets := [- 1]\<rparr>" and ret = "- 1" and seeks = "[]"
      and t = 40000 and h = True
      and ?d0.0 = three_pictures and ?ret0.0 = 0 and ?seeks0.0 = "[]" and ?h0.0 = True
      and reached = "fst r" and fl = "fst (snd r)" and ?d1.0 = "snd (snd r)"]
    a b f g cl
  have "hasPendingFrames p1
      \<and> (\<exists>d1. seekToTimestamp 40000 True (three_pictures\<lparr>seek_frame_rets := [- 1]\<rparr>)
                 = Some (False, True, d1))
      \<and> (\<exists>ts cs. calls (snd (snd r)) = Call_flush_buffers # Call_seek_frame ts # Call_receive_frame # cs)"
    by auto
  with a b c c2 c3 g show ?thesis by blast
qed

lemma EOF_negative: "AVERROR_EOF < 0"
  by (simp add: AVERROR_EOF_def)


lemma one_eagain_round:
  assumes "read_frame_rets d = (r0, i0) # reads" and "0 \<le> r0" and "i0 = m_video_stream_index d"
    and "send_packet_rets d = s0 # sends" and "0 \<le> s0"
    and "receive_frame_rets d = (AVERROR_EAGAIN, x) # recvs"
  shows "\<exists>d3. getNextFrame_body False d = Some (Again d3) \<and> read_frame_rets d3 = reads
           \<and> send_packet_rets d3 = sends \<and> receive_frame_rets d3 = recvs"
proof -
  from assms(2) have "r0 \<noteq> AVERROR_EOF" "\<not> r0 < 0" by (simp_all add: AVERROR_EOF_def)
  with assms show ?thesis
    by (simp add: getNextFrame_body_def read_packet_def Let_def)
qed

lemma eagain_rounds:
  assumes "read_frame_rets d = rpre @ reads" and "send_packet_rets d = spre @ sends"
    and "receive_frame_rets d = epre @ recvs"
    and "length spre = length rpre" and "length epre = length rpre"
    and "\<forall>y\<in>set rpre. 0 \<le> fst y \<and> snd y = m_video_stream_index d"
    and "\<forall>r\<in>set spre. 0 \<le> r" and "\<forall>y\<in>set epre. fst y = AVERROR_EAGAIN"
  shows "\<exists>dk. getNextFrame_av False d = getNextFrame_av False dk \<and> read_frame_rets dk = reads
           \<and> send_packet_rets dk = sends \<and> receive_frame_rets dk = recvs \<and> same_stream d dk"
  using assms
proof (induction rpre arbitrary: d spre epre)
  case Nil
  then have "read_frame_rets d = reads \<and> send_packet_rets d = sends \<and> receive_frame_rets d = recvs"
    by simp
  then show ?case by (intro exI [of _ d]) simp
next
  case (Cons y rpre)
  obtain r0 i0 where y: "y = (r0, i0)" by (cases y)
  from Cons.prems(4) obtain s0 spre' where sp: "spre = s0 # spre'" by (cases spre) auto
  from Cons.prems(5) obtain x0 epre' where ep: "epre = x0 # epre'" by (cases epre) auto
  from Cons.prems(8) ep obtain x where x0: "x0 = (AVERROR_EAGAIN, x)" by (cases x0) auto
  from Cons.prems y sp ep x0
  have h: "read_frame_rets d = (r0, i0) # (rpre @ reads)" "0 \<le> r0" "i0 = m_video_stream_index d"
    "send_packet_rets d = s0 # (spre' @ sends)" "0 \<le> s0"
    "receive_frame_rets d = (AVERROR_EAGAIN, x) # (epre' @ recvs)"
    by simp_all
  from one_eagain_round [OF h] obtain d3 where
    b: "getNextFrame_body False d = Some (Again d3)" and r3: "read_frame_rets d3 = rpre @ reads"
    and s3: "send_packet_rets d3 = spre' @ sends" and e3: "receive_frame_rets d3 = epre' @ recvs"
    by blast
  from body_Again [OF b] have same: "same_stream d d3" by simp
  then have idx: "m_video_stream_index d3 = m_video_stream_index d" by (simp add: same_stream_def)
  from b have step: "getNextFrame_av False d = getNextFrame_av False d3"
    by (simp add: getNextFrame_av.simps)
  have "\<exists>dk. getNextFrame_av False d3 = getNextFrame_av False dk \<and> read_frame_rets dk = reads
           \<and> send_packet_rets dk = sends \<and> receive_frame_rets dk = recvs \<and> same_stream d3 dk"
    using r3 s3 e3 Cons.prems(4-8) sp ep idx
    by (intro Cons.IH [of d3 spre' epre']) simp_all
  then obtain dk where "getNextFrame_av False d3 = getNextFrame_av False dk"
    "read_frame_rets dk = reads" "send_packet_rets dk = sends" "receive_frame_rets dk = recvs"
    "same_stream d3 dk" by blast
  with step same show ?case by (auto intro: same_stream_trans)
qed


























end
